theory Spec2Isabelle
  imports Main
begin

section \<open>Python strings\<close>

text \<open>
  Two kinds of strings occur. Text that the code only stores, compares and concatenates
  (titles, file contents, payloads, dictionary keys) is a \<open>string\<close>. Text that goes through
  \<open>str.strip\<close>, \<open>str.lower\<close> or \<open>str.upper\<close> (the lines read from the terminal and the SQL
  queries) is a list of Unicode code points, since these functions depend on the Unicode
  character database: \<open>u\<close> turns an ASCII literal into code points.
\<close>

type_synonym ustr = "int list"

definition u :: "string \<Rightarrow> ustr" where
  "u s = map of_char s"

text \<open>
  The Unicode tables of the Python runtime are a parameter, the record \<open>U\<close> of
  \<^item> \<open>isspace\<close>: the code points that \<open>str.isspace\<close> accepts and \<open>str.strip()\<close> removes;
  \<^item> \<open>upper_of\<close>: the full upper-case mapping of one code point, a string (the sharp s
    gives two letters); \<open>str.upper()\<close> maps code point by code point;
  \<^item> \<open>lower_of\<close>: \<open>str.lower()\<close> on a whole string (the image of the capital sigma depends
    on its neighbours).
  Nothing is assumed of the tables unless a statement says so.
\<close>

record unicode =
  isspace :: "int \<Rightarrow> bool"
  upper_of :: "int \<Rightarrow> ustr"
  lower_of :: "ustr \<Rightarrow> ustr"

definition lstrip :: "unicode \<Rightarrow> ustr \<Rightarrow> ustr" where
  "lstrip U s = dropWhile (isspace U) s"

definition rstrip :: "unicode \<Rightarrow> ustr \<Rightarrow> ustr" where
  "rstrip U s = rev (dropWhile (isspace U) (rev s))"

definition strip :: "unicode \<Rightarrow> ustr \<Rightarrow> ustr" where
  "strip U s = rstrip U (lstrip U s)"

definition lower :: "unicode \<Rightarrow> ustr \<Rightarrow> ustr" where
  "lower U s = lower_of U s"

definition upper :: "unicode \<Rightarrow> ustr \<Rightarrow> ustr" where
  "upper U s = concat (map (upper_of U) s)"

definition startswith :: "'a list \<Rightarrow> 'a list \<Rightarrow> bool" where
  "startswith s p = (take (length p) s = p)"

text \<open>
  The tables keep the ASCII capitals when none of \<open>A\<close> to \<open>Z\<close> is white space and each is
  its own upper case, as in Python.
\<close>

definition keeps_capitals :: "unicode \<Rightarrow> bool" where
  "keeps_capitals U =
     list_all (\<lambda>c. \<not> isspace U c \<and> upper_of U c = [c]) (u ''ABCDEFGHIJKLMNOPQRSTUVWXYZ'')"

text \<open>
  Tables for the examples. The white space is that of Python on every code point: the
  ASCII controls TAB to CR and 0x1C to 0x1F, the space, U+0085, U+00A0, U+1680, U+2000 to
  U+200A, U+2028, U+2029, U+202F, U+205F and U+3000. The case mappings are those of
  Python on ASCII strings and leave every other code point as it is; the examples use
  them on ASCII letters only.
\<close>

definition example_unicode :: unicode where
  "example_unicode =
     \<lparr>isspace = (\<lambda>c. c \<in> set [0x09, 0x0A, 0x0B, 0x0C, 0x0D, 0x1C, 0x1D, 0x1E, 0x1F, 0x20,
                              0x85, 0xA0, 0x1680, 0x2028, 0x2029, 0x202F, 0x205F, 0x3000]
                    \<or> (0x2000 \<le> c \<and> c \<le> 0x200A)),
      upper_of = (\<lambda>c. if 0x61 \<le> c \<and> c \<le> 0x7A then [c - 0x20] else [c]),
      lower_of = map (\<lambda>c. if 0x41 \<le> c \<and> c \<le> 0x5A then c + 0x20 else c)\<rparr>"

section \<open>The approval prompt\<close>

text \<open>
  The exceptions of the Python runtime that the modelled code can raise. \<open>input()\<close>
  raises \<open>EOFError\<close> when standard input is exhausted.
\<close>

datatype py_error = EOFError | IndexError | KeyError | TypeError | EngineError string

text \<open>
  \<open>get_user_decision\<close> of \<open>email_agent/agent.py\<close> and \<open>obsidian_agent/agent.py\<close>:
  after printing the request, the loop \<open>while True\<close> reads a line, strips and lowercases
  it, and returns on an approve or a reject word; any other line prints a hint and the
  loop reads again. Standard input is the list of lines still to be read; the function
  returns the verdict with the lines left unread. The prints do not influence the result
  and are left out.
\<close>

definition approve_words :: "ustr list" where
  "approve_words = map u [''a'', ''approve'', ''yes'', ''y'']"

definition reject_words :: "ustr list" where
  "reject_words = map u [''r'', ''reject'', ''no'', ''n'']"

fun get_user_decision :: "unicode \<Rightarrow> ustr list \<Rightarrow> py_error + string \<times> ustr list" where
  "get_user_decision U [] = Inl EOFError"
| "get_user_decision U (line # rest) =
     (let decision = lower U (strip U line) in
      if decision \<in> set approve_words then Inr (''approve'', rest)
      else if decision \<in> set reject_words then Inr (''reject'', rest)
      else get_user_decision U rest)"

text \<open>
  \<open>get_user_decision\<close> of \<open>sql_agent/agent.py\<close> has two more branches: \<open>v\<close>/\<open>view\<close>
  prints the query again and \<open>p\<close>/\<open>preview\<close> prints the preview again; both go round
  the loop.
\<close>

fun get_user_decision_sql :: "unicode \<Rightarrow> ustr list \<Rightarrow> py_error + string \<times> ustr list" where
  "get_user_decision_sql U [] = Inl EOFError"
| "get_user_decision_sql U (line # rest) =
     (let decision = lower U (strip U line) in
      if decision \<in> set approve_words then Inr (''approve'', rest)
      else if decision \<in> set reject_words then Inr (''reject'', rest)
      else if decision \<in> set (map u [''v'', ''view'']) then get_user_decision_sql U rest
      else if decision \<in> set (map u [''p'', ''preview'']) then get_user_decision_sql U rest
      else get_user_decision_sql U rest)"

text \<open>An input line is valid when its normal form is an approve or a reject word.\<close>

definition valid_input :: "unicode \<Rightarrow> ustr \<Rightarrow> bool" where
  "valid_input U line = (lower U (strip U line) \<in> set approve_words \<union> set reject_words)"

definition verdict_of :: "unicode \<Rightarrow> ustr \<Rightarrow> string" where
  "verdict_of U line =
     (if lower U (strip U line) \<in> set approve_words then ''approve'' else ''reject'')"

section \<open>The SQL tools\<close>

text \<open>
  What a Python call can raise: an instance of \<open>Exception\<close>, which \<open>except Exception\<close>
  catches, or of a class that derives from \<open>BaseException\<close> only (\<open>KeyboardInterrupt\<close>,
  \<open>SystemExit\<close>), which it does not. Both carry the text \<open>str(e)\<close>.
\<close>

datatype py_raise = Exception string | BaseExceptionOnly string

datatype db_outcome = Returns string | Raises py_raise

text \<open>
  The database handle \<open>runtime.context.db\<close>. \<open>SQLDatabase.run\<close> is a library function:
  it is the parameter \<open>run\<close>, which maps a query and the database's contents to an
  outcome and the new contents. \<open>calls\<close> records the queries handed to \<open>db.run\<close>.
\<close>

record 'db sqldb =
  contents :: 'db
  calls :: "ustr list"

definition db_run ::
  "(ustr \<Rightarrow> 'db \<Rightarrow> db_outcome \<times> 'db) \<Rightarrow> ustr \<Rightarrow> 'db sqldb \<Rightarrow> db_outcome \<times> 'db sqldb" where
  "db_run run query d =
     (case run query (contents d) of
        (out, c) \<Rightarrow> (out, \<lparr>contents = c, calls = calls d @ [query]\<rparr>))"

definition select_refusal :: string where
  "select_refusal = ''Error: This tool only accepts SELECT queries''"

definition write_refusal :: string where
  "write_refusal =
     ''Error: This tool only accepts INSERT/UPDATE/DELETE/CREATE/DROP/ALTER/TRUNCATE queries''"

definition write_commands :: "ustr list" where
  "write_commands =
     map u [''INSERT'', ''UPDATE'', ''DELETE'', ''CREATE'', ''DROP'', ''ALTER'', ''TRUNCATE'']"

text \<open>
  The tools return their payload (\<open>Inr\<close>) or let an exception through (\<open>Inl\<close>), together
  with the database. \<open>get_runtime(RuntimeContext)\<close> only fetches the handle.
\<close>

definition execute_select_query ::
  "unicode \<Rightarrow> (ustr \<Rightarrow> 'db \<Rightarrow> db_outcome \<times> 'db) \<Rightarrow> ustr \<Rightarrow> 'db sqldb
     \<Rightarrow> (py_raise + string) \<times> 'db sqldb" where
  "execute_select_query U run query d =
     (if \<not> startswith (upper U (strip U query)) (u ''SELECT'') then (Inr select_refusal, d)
      else
        (case db_run run query d of
           (Returns result, d') \<Rightarrow> (Inr (''Query executed successfully:\<newline>'' @ result), d')
         | (Raises (Exception e), d') \<Rightarrow> (Inr (''Error: '' @ e), d')
         | (Raises (BaseExceptionOnly e), d') \<Rightarrow> (Inl (BaseExceptionOnly e), d')))"

definition execute_write_query ::
  "unicode \<Rightarrow> (ustr \<Rightarrow> 'db \<Rightarrow> db_outcome \<times> 'db) \<Rightarrow> ustr \<Rightarrow> 'db sqldb
     \<Rightarrow> (py_raise + string) \<times> 'db sqldb" where
  "execute_write_query U run query d =
     (let query_upper = upper U (strip U query);
          allowed = list_ex (\<lambda>cmd. startswith query_upper cmd) write_commands
      in
      if \<not> allowed then (Inr write_refusal, d)
      else
        (case db_run run query d of
           (Returns result, d') \<Rightarrow> (Inr (''Write query executed successfully:\<newline>'' @ result), d')
         | (Raises (Exception e), d') \<Rightarrow> (Inr (''Error: '' @ e), d')
         | (Raises (BaseExceptionOnly e), d') \<Rightarrow> (Inl (BaseExceptionOnly e), d')))"

text \<open>
  A database for the examples: a list of rows; a query that contains a quote character
  is a syntax error, \<open>INSERT\<close> adds the query as a row, anything else returns the row count
  as a tally.
\<close>

definition example_run :: "ustr \<Rightarrow> ustr list \<Rightarrow> db_outcome \<times> ustr list" where
  "example_run query rows =
     (if 0x27 \<in> set query then (Raises (Exception ''syntax error''), rows)
      else if startswith (upper example_unicode (strip example_unicode query)) (u ''INSERT'')
      then (Returns ''[]'', rows @ [query])
      else (Returns (replicate (length rows) CHR ''|''), rows))"

section \<open>The Obsidian note tools\<close>

text \<open>
  The vault directory is a map from file names (relative to \<open>vault_path\<close>) to file
  contents; a note title \<open>t\<close> names the file \<open>t.md\<close>. Titles are plain file names: two
  different strings name two different files. The module-level variable \<open>_notes_cache\<close>
  is \<open>None\<close> or a list of notes.
\<close>

record doc =
  source :: "string option"
  page_content :: string

record note_entry =
  title :: string
  content :: string

record obsidian =
  vault :: "string \<rightharpoonup> string"
  notes_cache :: "note_entry list option"

text \<open>
  \<open>Path(p).stem\<close> (pathlib, POSIX flavour, Python up to 3.13): the final component of the
  path, empty and \<open>.\<close> components dropped, without its last suffix; a leading dot and a
  trailing dot are no suffix separators.
\<close>

definition split_slash :: "string \<Rightarrow> string list" where
  "split_slash s =
     foldr (\<lambda>c acc. if c = CHR ''/'' then [] # acc else (c # hd acc) # tl acc) s [[]]"

definition path_name :: "string \<Rightarrow> string" where
  "path_name p =
     (case filter (\<lambda>part. part \<noteq> [] \<and> part \<noteq> ''.'') (split_slash p) of
        [] \<Rightarrow> []
      | part # parts \<Rightarrow> last (part # parts))"

definition stem :: "string \<Rightarrow> string" where
  "stem p =
     (let name = path_name p;
          k = length (takeWhile (\<lambda>c. c \<noteq> CHR ''.'') (rev name))
      in
      if CHR ''.'' \<in> set name \<and> 0 < k \<and> k + 1 < length name
      then take (length name - 1 - k) name
      else name)"

text \<open>
  One entry of the list comprehension of \<open>load_notes\<close>: the title is
  \<open>Path(doc.metadata.get("source", "")).stem or "No Title"\<close>.
\<close>

definition to_note :: "doc \<Rightarrow> note_entry" where
  "to_note d =
     (let s = stem (case source d of None \<Rightarrow> [] | Some p \<Rightarrow> p) in
      \<lparr>title = (if s = [] then ''No Title'' else s), content = page_content d\<rparr>)"

text \<open>
  \<open>ObsidianLoader(str(vault_path)).load()\<close> is a library function: the parameter \<open>loader\<close>
  maps the vault's files to the documents it reads from them.
\<close>

definition load_notes ::
  "((string \<rightharpoonup> string) \<Rightarrow> doc list) \<Rightarrow> bool \<Rightarrow> obsidian \<Rightarrow> note_entry list \<times> obsidian" where
  "load_notes loader force_reload st =
     (case notes_cache st of
        None \<Rightarrow>
          (let docs = loader (vault st); c = map to_note docs
           in (c, st\<lparr>notes_cache := Some c\<rparr>))
      | Some cached \<Rightarrow>
          if force_reload
          then (let docs = loader (vault st); c = map to_note docs
                in (c, st\<lparr>notes_cache := Some c\<rparr>))
          else (cached, st))"

definition inspect_notes ::
  "((string \<rightharpoonup> string) \<Rightarrow> doc list) \<Rightarrow> obsidian \<Rightarrow> note_entry list \<times> obsidian" where
  "inspect_notes loader st = load_notes loader False st"

definition quoted :: "string \<Rightarrow> string" where
  "quoted s = CHR 0x27 # s @ [CHR 0x27]"

definition correct_note ::
  "((string \<rightharpoonup> string) \<Rightarrow> doc list) \<Rightarrow> string \<Rightarrow> string \<Rightarrow> string \<Rightarrow> obsidian
     \<Rightarrow> string \<times> obsidian" where
  "correct_note loader note_title new_note_title new_note_content st =
     (let old_path = note_title @ ''.md'';
          new_path = new_note_title @ ''.md''
      in
      if vault st old_path = None then (''Error: '' @ quoted note_title @ '' not found'', st)
      else
        (let st1 = st\<lparr>vault := (vault st)(old_path \<mapsto> new_note_content)\<rparr> in
         if note_title \<noteq> new_note_title then
           if vault st1 new_path \<noteq> None
           then (''Error: '' @ quoted new_note_title @ '' already exists'', st1)
           else
             (let st2 = st1\<lparr>vault := ((vault st1)(new_path := vault st1 old_path))(old_path := None)\<rparr>;
                  st3 = snd (load_notes loader True st2)
              in (''Updated and renamed to '' @ quoted new_note_title, st3))
         else
           (let st3 = snd (load_notes loader True st1)
            in (quoted note_title @ '' updated'', st3))))"

text \<open>
  What \<open>inspect_notes\<close> returns agrees with the vault when it is the list the loader
  reads from the vault as it is now.
\<close>

definition consistent :: "((string \<rightharpoonup> string) \<Rightarrow> doc list) \<Rightarrow> obsidian \<Rightarrow> bool" where
  "consistent loader st = (fst (inspect_notes loader st) = map to_note (loader (vault st)))"

text \<open>A loader for the examples: it reads the files \<open>a.md\<close>, \<open>b.md\<close> and \<open>c.md\<close>.\<close>

definition example_loader :: "(string \<rightharpoonup> string) \<Rightarrow> doc list" where
  "example_loader v =
     concat (map (\<lambda>n. case v n of None \<Rightarrow> [] | Some c \<Rightarrow> [\<lparr>source = Some n, page_content = c\<rparr>])
       [''a.md'', ''b.md'', ''c.md''])"

definition example_vault :: "string \<rightharpoonup> string" where
  "example_vault = [''a.md'' \<mapsto> ''old'', ''b.md'' \<mapsto> ''other'']"

text \<open>
  The example run: the notes are inspected, which fills the cache, and then note \<open>a\<close> is
  corrected under the title of the existing note \<open>b\<close>.
\<close>

definition example_loaded :: obsidian where
  "example_loaded =
     snd (inspect_notes example_loader \<lparr>vault = example_vault, notes_cache = None\<rparr>)"

definition example_corrected :: "string \<times> obsidian" where
  "example_corrected = correct_note example_loader ''a'' ''b'' ''new'' example_loaded"

section \<open>The driver loops\<close>

text \<open>
  The agent built by \<open>create_agent\<close> with \<open>HumanInTheLoopMiddleware\<close> and a checkpointer is
  library code. The drivers see it through \<open>agent.invoke\<close>: it is the parameter
  \<open>agent_invoke\<close>, which maps a command and the state of all the agent can reach (its
  checkpoints, the database, the vault) to a returned result or a raised error, and the
  new state. These are the values the drivers read:
  \<^item> a dictionary with string keys and values is an association list;
  \<^item> an action request is read through \<open>['args']\<close> only;
  \<^item> an interrupt is read through \<open>.value['action_requests']\<close> only;
  \<^item> a message is a \<open>ToolMessage\<close> with \<open>name\<close> and \<open>content\<close>, or another message with
    its \<open>content\<close>;
  \<open>interrupt_key\<close> is the value under \<open>"__interrupt__"\<close> when the result has that key.
\<close>

type_synonym pydict = "(string \<times> string) list"

record action_request =
  args :: pydict

record interrupt =
  action_requests :: "action_request list"

datatype base_message = ToolMessage string string | OtherMessage string

record result =
  interrupt_key :: "interrupt list option"
  messages :: "base_message list"

datatype command = Start string | Resume "pydict list"

text \<open>
  What a run of a driver does, in order: a call of \<open>get_user_decision\<close> with its arguments
  (a missing argument prints as \<open>None\<close>), and a call of \<open>agent.invoke\<close> with what it gave.
\<close>

datatype event = Prompted "string list" | Invoked command "py_error + result"

record 'w driver =
  world :: 'w
  stdin :: "ustr list"
  trace :: "event list"

datatype 'a outcome = Finished 'a | Raised py_error | OutOfFuel

text \<open>\<open>xs[-1]\<close> raises \<open>IndexError\<close> on an empty list; \<open>d.get(k, default)\<close>.\<close>

definition last_item :: "'a list \<Rightarrow> py_error + 'a" where
  "last_item xs = (if xs = [] then Inl IndexError else Inr (last xs))"

definition dict_get :: "pydict \<Rightarrow> string \<Rightarrow> string \<Rightarrow> string" where
  "dict_get d k dflt = (case map_of d k of None \<Rightarrow> dflt | Some v \<Rightarrow> v)"

definition str_of :: "string option \<Rightarrow> string" where
  "str_of v = (case v of None \<Rightarrow> ''None'' | Some s \<Rightarrow> s)"

text \<open>\<open>Command(resume={"decisions": [{"type": decision}]})\<close>, the same in the three drivers.\<close>

definition resume_command :: "string \<Rightarrow> command" where
  "resume_command decision = Resume [[(''type'', decision)]]"

text \<open>The first \<open>ToolMessage\<close> named \<open>read_email\<close> gives the received email, else it is empty.\<close>

fun received_email_of :: "base_message list \<Rightarrow> string" where
  "received_email_of [] = []"
| "received_email_of (ToolMessage name' content' # ms) =
     (if name' = ''read_email'' then content' else received_email_of ms)"
| "received_email_of (OtherMessage content' # ms) = received_email_of ms"

text \<open>
  The loop \<open>while "__interrupt__" in result\<close> of \<open>email_agent/agent.py\<close>. Whether it ends
  depends on the agent, so the loop carries fuel: one unit per iteration. A failed read
  of the decision has consumed all input. What \<open>main\<close> prints after the loop is left out.
\<close>

fun email_loop ::
  "unicode \<Rightarrow> (command \<Rightarrow> 'w \<Rightarrow> (py_error + result) \<times> 'w) \<Rightarrow> nat \<Rightarrow> result \<Rightarrow> 'w driver
     \<Rightarrow> result outcome \<times> 'w driver" where
  "email_loop U agent_invoke 0 res d = (OutOfFuel, d)"
| "email_loop U agent_invoke (Suc fuel) res d =
     (case interrupt_key res of
        None \<Rightarrow> (Finished res, d)
      | Some interrupts \<Rightarrow>
          (case last_item interrupts of
             Inl e \<Rightarrow> (Raised e, d)
           | Inr i \<Rightarrow>
               (case last_item (action_requests i) of
                  Inl e \<Rightarrow> (Raised e, d)
                | Inr request \<Rightarrow>
                    (let recipient = dict_get (args request) ''recipient'' [];
                         subject = dict_get (args request) ''subject'' [];
                         body = dict_get (args request) ''body'' [];
                         email = ''To: '' @ recipient @ ''\<newline>Subject: '' @ subject
                                   @ ''\<newline>\<newline>'' @ body;
                         received_email = received_email_of (messages res);
                         d1 = d\<lparr>trace := trace d @ [Prompted [received_email, email]]\<rparr>
                     in
                     case get_user_decision U (stdin d1) of
                       Inl e \<Rightarrow> (Raised e, d1\<lparr>stdin := []\<rparr>)
                     | Inr (decision, rest) \<Rightarrow>
                         (case agent_invoke (resume_command decision) (world d1) of
                            (r, w) \<Rightarrow>
                              (let d2 = d1\<lparr>world := w, stdin := rest,
                                          trace := trace d1 @ [Invoked (resume_command decision) r]\<rparr>
                               in
                               case r of
                                 Inl e \<Rightarrow> (Raised e, d2)
                               | Inr res' \<Rightarrow> email_loop U agent_invoke fuel res' d2))))))"

definition email_prompt :: string where
  "email_prompt = ''Please read my latest email and reply.''"

definition email_main ::
  "unicode \<Rightarrow> (command \<Rightarrow> 'w \<Rightarrow> (py_error + result) \<times> 'w) \<Rightarrow> nat \<Rightarrow> 'w driver \<Rightarrow> result outcome \<times> 'w driver" where
  "email_main U agent_invoke fuel d =
     (case agent_invoke (Start email_prompt) (world d) of
        (r, w) \<Rightarrow>
          (let d1 = d\<lparr>world := w, trace := trace d @ [Invoked (Start email_prompt) r]\<rparr> in
           case r of
             Inl e \<Rightarrow> (Raised e, d1)
           | Inr res \<Rightarrow> email_loop U agent_invoke fuel res d1))"

text \<open>
  The loop of \<open>sql_agent/agent.py\<close>. The preview that \<open>get_user_decision\<close> prints is
  computed by \<open>preview_query_impact\<close>, which is not modelled.
\<close>

fun sql_loop ::
  "unicode \<Rightarrow> (command \<Rightarrow> 'w \<Rightarrow> (py_error + result) \<times> 'w) \<Rightarrow> nat \<Rightarrow> result \<Rightarrow> 'w driver
     \<Rightarrow> result outcome \<times> 'w driver" where
  "sql_loop U agent_invoke 0 res d = (OutOfFuel, d)"
| "sql_loop U agent_invoke (Suc fuel) res d =
     (case interrupt_key res of
        None \<Rightarrow> (Finished res, d)
      | Some interrupts \<Rightarrow>
          (case last_item interrupts of
             Inl e \<Rightarrow> (Raised e, d)
           | Inr i \<Rightarrow>
               (case last_item (action_requests i) of
                  Inl e \<Rightarrow> (Raised e, d)
                | Inr request \<Rightarrow>
                    (let query = dict_get (args request) ''query'' [];
                         d1 = d\<lparr>trace := trace d @ [Prompted [query]]\<rparr>
                     in
                     case get_user_decision_sql U (stdin d1) of
                       Inl e \<Rightarrow> (Raised e, d1\<lparr>stdin := []\<rparr>)
                     | Inr (decision, rest) \<Rightarrow>
                         (case agent_invoke (resume_command decision) (world d1) of
                            (r, w) \<Rightarrow>
                              (let d2 = d1\<lparr>world := w, stdin := rest,
                                          trace := trace d1 @ [Invoked (resume_command decision) r]\<rparr>
                               in
                               case r of
                                 Inl e \<Rightarrow> (Raised e, d2)
                               | Inr res' \<Rightarrow> sql_loop U agent_invoke fuel res' d2))))))"

definition sql_prompt :: string where
  "sql_prompt = ''Please provide me with the names of all artists in the database. ''
     @ ''Then, add a new artist with name '' @ quoted ''AI Records'' @ ''.''"

definition sql_main ::
  "unicode \<Rightarrow> (command \<Rightarrow> 'w \<Rightarrow> (py_error + result) \<times> 'w) \<Rightarrow> nat \<Rightarrow> 'w driver \<Rightarrow> result outcome \<times> 'w driver" where
  "sql_main U agent_invoke fuel d =
     (case agent_invoke (Start sql_prompt) (world d) of
        (r, w) \<Rightarrow>
          (let d1 = d\<lparr>world := w, trace := trace d @ [Invoked (Start sql_prompt) r]\<rparr> in
           case r of
             Inl e \<Rightarrow> (Raised e, d1)
           | Inr res \<Rightarrow> sql_loop U agent_invoke fuel res d1))"

text \<open>
  \<open>get_user_decision\<close> of \<open>obsidian_agent/agent.py\<close> evaluates \<open>len(new_note_content)\<close>
  for its header before the loop: \<open>TypeError\<close> when the argument is \<open>None\<close>.
\<close>

definition get_user_decision_note ::
  "unicode \<Rightarrow> string option \<Rightarrow> ustr list \<Rightarrow> py_error + string \<times> ustr list" where
  "get_user_decision_note U new_note_content inputs =
     (case new_note_content of
        None \<Rightarrow> Inl TypeError
      | Some c \<Rightarrow> get_user_decision U inputs)"

text \<open>
  The loop \<open>for i, request in enumerate(all_requests)\<close> of \<open>obsidian_agent/agent.py\<close>: it
  runs over the requests of the interrupt it was started on, and resumes the agent after
  every single one. \<open>vault_of\<close> reads the vault directory out of the agent's world.
\<close>

fun obsidian_requests ::
  "unicode \<Rightarrow> (command \<Rightarrow> 'w \<Rightarrow> (py_error + result) \<times> 'w) \<Rightarrow> ('w \<Rightarrow> string \<rightharpoonup> string)
     \<Rightarrow> action_request list \<Rightarrow> result \<Rightarrow> 'w driver \<Rightarrow> result outcome \<times> 'w driver" where
  "obsidian_requests U agent_invoke vault_of [] res d = (Finished res, d)"
| "obsidian_requests U agent_invoke vault_of (request # requests) res d =
     (let note_title = map_of (args request) ''note_title'';
          note_path = str_of note_title @ ''.md'';
          note_content = (case vault_of (world d) note_path of
                            Some text \<Rightarrow> text
                          | None \<Rightarrow> ''[Not found]'');
          new_note_title = map_of (args request) ''new_note_title'';
          new_note_content = map_of (args request) ''new_note_content'';
          d1 = d\<lparr>trace := trace d @
                 [Prompted [str_of note_title, note_content, str_of new_note_title,
                            str_of new_note_content]]\<rparr>
      in
      case get_user_decision_note U new_note_content (stdin d1) of
        Inl e \<Rightarrow> (Raised e, if e = EOFError then d1\<lparr>stdin := []\<rparr> else d1)
      | Inr (decision, rest) \<Rightarrow>
          (case agent_invoke (resume_command decision) (world d1) of
             (r, w) \<Rightarrow>
               (let d2 = d1\<lparr>world := w, stdin := rest,
                           trace := trace d1 @ [Invoked (resume_command decision) r]\<rparr>
                in
                case r of
                  Inl e \<Rightarrow> (Raised e, d2)
                | Inr res' \<Rightarrow> obsidian_requests U agent_invoke vault_of requests res' d2)))"

fun obsidian_loop ::
  "unicode \<Rightarrow> (command \<Rightarrow> 'w \<Rightarrow> (py_error + result) \<times> 'w) \<Rightarrow> ('w \<Rightarrow> string \<rightharpoonup> string)
     \<Rightarrow> nat \<Rightarrow> result \<Rightarrow> 'w driver \<Rightarrow> result outcome \<times> 'w driver" where
  "obsidian_loop U agent_invoke vault_of 0 res d = (OutOfFuel, d)"
| "obsidian_loop U agent_invoke vault_of (Suc fuel) res d =
     (case interrupt_key res of
        None \<Rightarrow> (Finished res, d)
      | Some interrupts \<Rightarrow>
          (case last_item interrupts of
             Inl e \<Rightarrow> (Raised e, d)
           | Inr i \<Rightarrow>
               (case obsidian_requests U agent_invoke vault_of (action_requests i) res d of
                  (Finished res', d') \<Rightarrow> obsidian_loop U agent_invoke vault_of fuel res' d'
                | (Raised e, d') \<Rightarrow> (Raised e, d')
                | (OutOfFuel, d') \<Rightarrow> (OutOfFuel, d'))))"

definition obsidian_prompt :: string where
  "obsidian_prompt = ''Inspect my notes and correct any inaccuracies you find.''"

definition obsidian_main ::
  "unicode \<Rightarrow> (command \<Rightarrow> 'w \<Rightarrow> (py_error + result) \<times> 'w) \<Rightarrow> ('w \<Rightarrow> string \<rightharpoonup> string)
     \<Rightarrow> nat \<Rightarrow> 'w driver \<Rightarrow> result outcome \<times> 'w driver" where
  "obsidian_main U agent_invoke vault_of fuel d =
     (case agent_invoke (Start obsidian_prompt) (world d) of
        (r, w) \<Rightarrow>
          (let d1 = d\<lparr>world := w, trace := trace d @ [Invoked (Start obsidian_prompt) r]\<rparr> in
           case r of
             Inl e \<Rightarrow> (Raised e, d1)
           | Inr res \<Rightarrow> obsidian_loop U agent_invoke vault_of fuel res d1))"


text \<open>An invocation that gave a result without \<open>"__interrupt__"\<close>: the run is completed.\<close>

fun completing :: "event \<Rightarrow> bool" where
  "completing (Invoked c (Inr res)) = (interrupt_key res = None)"
| "completing (Invoked c (Inl e)) = False"
| "completing (Prompted xs) = False"

text \<open>The arguments of the prompts in a trace, in order.\<close>

fun prompts :: "event list \<Rightarrow> string list list" where
  "prompts [] = []"
| "prompts (Prompted xs # evs) = xs # prompts evs"
| "prompts (Invoked c r # evs) = prompts evs"


text \<open>
  An agent for the examples. Its first answer is an interrupt with the given pending
  requests; any resume completes the run. The world counts the invocations.
\<close>

definition example_agent :: "action_request list \<Rightarrow> command \<Rightarrow> nat \<Rightarrow> (py_error + result) \<times> nat" where
  "example_agent requests c n =
     (case c of
        Start p \<Rightarrow>
          (Inr \<lparr>interrupt_key = Some [\<lparr>action_requests = requests\<rparr>],
                messages = [OtherMessage p, ToolMessage ''read_email'' ''From Mark'']\<rparr>, Suc n)
      | Resume ds \<Rightarrow>
          (Inr \<lparr>interrupt_key = None, messages = [OtherMessage ''done'']\<rparr>, Suc n))"

definition two_emails :: "action_request list" where
  "two_emails =
     [\<lparr>args = [(''recipient'', ''alice''), (''subject'', ''hi''), (''body'', ''one'')]\<rparr>,
      \<lparr>args = [(''recipient'', ''bob''), (''subject'', ''re''), (''body'', ''two'')]\<rparr>]"


definition two_queries :: "action_request list" where
  "two_queries =
     [\<lparr>args = [(''query'', ''DELETE FROM Artist'')]\<rparr>,
      \<lparr>args = [(''query'', ''INSERT INTO Artist (Name) VALUES (1)'')]\<rparr>]"

definition two_notes :: "action_request list" where
  "two_notes =
     [\<lparr>args = [(''note_title'', ''a''), (''new_note_title'', ''a''), (''new_note_content'', ''x'')]\<rparr>,
      \<lparr>args = [(''note_title'', ''b''), (''new_note_title'', ''b''), (''new_note_content'', ''y'')]\<rparr>]"

definition terminal :: "string list \<Rightarrow> nat driver" where
  "terminal lines = \<lparr>world = 0, stdin = map u lines, trace = []\<rparr>"



text \<open>Nothing follows a completing invocation: only the last event of a trace may be one.\<close>

definition quiet_after_completion :: "event list \<Rightarrow> bool" where
  "quiet_after_completion tr = list_all (\<lambda>ev. \<not> completing ev) (butlast tr)"

section \<open>The execution engine of the specification\<close>

text \<open>
  Modelled from the spec: the engine behind \<open>agent.invoke\<close> (planner loop, gating,
  checkpoints, resume) is the library's \<open>create_agent\<close> with \<open>HumanInTheLoopMiddleware\<close> and
  \<open>InMemorySaver\<close>; no file of the repository implements it. The definitions of this
  section follow sections 3, 4 and 7 of the specification. Field names that are taken
  already carry a prefix: \<open>req_id\<close> is the \<open>id\<close> of a request, \<open>content_text\<close> the \<open>content\<close>
  of a message, \<open>response_content\<close> and \<open>response_tool_calls\<close> the fields of a planner
  response.
\<close>

datatype role = User | Planner | Tool

record tool_call_request =
  req_id :: string
  tool_name :: string
  arguments :: pydict

record message =
  role :: role
  content_text :: string
  tool_calls :: "tool_call_request list"
  tool_call_id :: "string option"

datatype status = Running | Suspended | Completed

record run_state =
  thread_id :: string
  message_log :: "message list"
  status :: status
  pending_requests :: "tool_call_request list"

datatype verdict = Approve | Reject

record decision =
  request_id :: string
  verdict :: verdict

datatype engine_error =
  DuplicateToolError | UnknownToolError | UnknownThreadError | NotSuspendedError
  | DuplicateRunError | DecisionMismatchError

text \<open>
  Modelled from the spec: a tool registration (section 3). \<open>invoke\<close> gives the result
  text (\<open>Inr\<close>) or fails with \<open>ToolExecutionError(message)\<close> (\<open>Inl\<close>, section 6).
\<close>

record tool_registration =
  name :: string
  input_schema :: string
  invoke :: "pydict \<Rightarrow> string + string"
  gated :: bool

record planner_response =
  response_content :: string
  response_tool_calls :: "tool_call_request list"

datatype run_outcome = CompletedRun string | SuspendedRun "tool_call_request list"

text \<open>
  Modelled from the spec: the engine's state between invocations is the checkpoint
  store, one run state per thread (section 4.4). \<open>invocations\<close> records every call of a
  tool's \<open>invoke\<close>, in order.
\<close>

record engine =
  store :: "string \<rightharpoonup> run_state"
  invocations :: "tool_call_request list"

text \<open>Modelled from the spec: registry lookup, gating policy and catalog (4.1, 4.2).\<close>

definition lookup :: "tool_registration list \<Rightarrow> string \<Rightarrow> engine_error + tool_registration" where
  "lookup registry n =
     (case find (\<lambda>t. name t = n) registry of
        None \<Rightarrow> Inl UnknownToolError
      | Some t \<Rightarrow> Inr t)"

definition requires_approval :: "tool_registration list \<Rightarrow> string \<Rightarrow> engine_error + bool" where
  "requires_approval registry n =
     (case lookup registry n of
        Inl e \<Rightarrow> Inl e
      | Inr t \<Rightarrow> Inr (gated t))"

definition catalog :: "tool_registration list \<Rightarrow> (string \<times> string) list" where
  "catalog registry = map (\<lambda>t. (name t, input_schema t)) registry"

text \<open>
  Modelled from the spec: the invoke/append-result procedure (4.3, resume step 3): the
  tool is invoked through the registry and a tool-result message with its return value,
  or with the failure text of a \<open>ToolExecutionError\<close>, is appended (section 7). The state
  is the message log with the record of invocations; an error comes with the state
  reached.
\<close>

definition tool_result :: "string \<Rightarrow> string \<Rightarrow> message" where
  "tool_result rid payload =
     \<lparr>role = Tool, content_text = payload, tool_calls = [], tool_call_id = Some rid\<rparr>"

definition rejected_payload :: string where
  "rejected_payload = ''rejected by reviewer''"

definition invoke_and_append ::
  "tool_registration list \<Rightarrow> tool_call_request \<Rightarrow> message list \<times> tool_call_request list
     \<Rightarrow> engine_error \<times> (message list \<times> tool_call_request list)
         + message list \<times> tool_call_request list" where
  "invoke_and_append registry rq s =
     (case lookup registry (tool_name rq) of
        Inl e \<Rightarrow> Inl (e, s)
      | Inr t \<Rightarrow>
          (let payload = (case invoke t (arguments rq) of Inr text \<Rightarrow> text | Inl failure \<Rightarrow> failure)
           in Inr (fst s @ [tool_result (req_id rq) payload], snd s @ [rq])))"

fun execute_all ::
  "tool_registration list \<Rightarrow> tool_call_request list \<Rightarrow> message list \<times> tool_call_request list
     \<Rightarrow> engine_error \<times> (message list \<times> tool_call_request list)
         + message list \<times> tool_call_request list" where
  "execute_all registry [] s = Inr s"
| "execute_all registry (rq # rqs) s =
     (case invoke_and_append registry rq s of
        Inl e \<Rightarrow> Inl e
      | Inr s' \<Rightarrow> execute_all registry rqs s')"

text \<open>
  Modelled from the spec: resume step 3. The pending requests are handled in their
  order; the verdict of a request is that of the first decision with its identifier.
\<close>

definition verdict_for :: "decision list \<Rightarrow> string \<Rightarrow> verdict option" where
  "verdict_for decisions rid = map_of (map (\<lambda>d. (request_id d, verdict d)) decisions) rid"

fun apply_decisions ::
  "tool_registration list \<Rightarrow> decision list \<Rightarrow> tool_call_request list
     \<Rightarrow> message list \<times> tool_call_request list
     \<Rightarrow> engine_error \<times> (message list \<times> tool_call_request list)
         + message list \<times> tool_call_request list" where
  "apply_decisions registry decisions [] s = Inr s"
| "apply_decisions registry decisions (rq # rqs) s =
     (case verdict_for decisions (req_id rq) of
        None \<Rightarrow> Inl (DecisionMismatchError, s)
      | Some Approve \<Rightarrow>
          (case invoke_and_append registry rq s of
             Inl e \<Rightarrow> Inl e
           | Inr s' \<Rightarrow> apply_decisions registry decisions rqs s')
      | Some Reject \<Rightarrow>
          apply_decisions registry decisions rqs
            (fst s @ [tool_result (req_id rq) rejected_payload], snd s))"

text \<open>Modelled from the spec: drive loop step d, the partition by the gating policy.\<close>

fun partition_calls ::
  "tool_registration list \<Rightarrow> tool_call_request list
     \<Rightarrow> engine_error + tool_call_request list \<times> tool_call_request list" where
  "partition_calls registry [] = Inr ([], [])"
| "partition_calls registry (rq # rqs) =
     (case requires_approval registry (tool_name rq) of
        Inl e \<Rightarrow> Inl e
      | Inr g \<Rightarrow>
          (case partition_calls registry rqs of
             Inl e \<Rightarrow> Inl e
           | Inr (gs, us) \<Rightarrow> Inr (if g then (rq # gs, us) else (gs, rq # us))))"

text \<open>
  Modelled from the spec: the drive loop (4.3, steps a to g). The planner is the
  parameter \<open>plan\<close> (section 6). The loop runs until the planner answers without tool
  calls or a gated call suspends the run; it carries fuel, one unit per planner turn, and
  gives \<open>None\<close> when the fuel does not suffice. The record of invocations is given in
  every case.
\<close>

fun drive ::
  "(message list \<Rightarrow> (string \<times> string) list \<Rightarrow> planner_response) \<Rightarrow> tool_registration list
     \<Rightarrow> nat \<Rightarrow> run_state \<Rightarrow> tool_call_request list
     \<Rightarrow> (engine_error + run_outcome \<times> run_state) option \<times> tool_call_request list" where
  "drive plan registry 0 rs ivs = (None, ivs)"
| "drive plan registry (Suc fuel) rs ivs =
     (let response = plan (message_log rs) (catalog registry);
          log1 = message_log rs @
                   [\<lparr>role = Planner, content_text = response_content response,
                     tool_calls = response_tool_calls response, tool_call_id = None\<rparr>]
      in
      if response_tool_calls response = []
      then (Some (Inr (CompletedRun (response_content response),
                       rs\<lparr>message_log := log1, status := Completed\<rparr>)), ivs)
      else
        (case partition_calls registry (response_tool_calls response) of
           Inl e \<Rightarrow> (Some (Inl e), ivs)
         | Inr (gs, us) \<Rightarrow>
             (case execute_all registry us (log1, ivs) of
                Inl (e, s) \<Rightarrow> (Some (Inl e), snd s)
              | Inr (log2, ivs2) \<Rightarrow>
                  if gs \<noteq> []
                  then (Some (Inr (SuspendedRun gs,
                                   rs\<lparr>message_log := log2, status := Suspended,
                                      pending_requests := gs\<rparr>)), ivs2)
                  else drive plan registry fuel (rs\<lparr>message_log := log2\<rparr>) ivs2)))"

text \<open>
  Modelled from the spec: an invocation enters the drive loop and saves the run state it
  ends in (4.3 step f, 4.4); an error leaves the store as it was (section 7).
\<close>

definition run_drive ::
  "(message list \<Rightarrow> (string \<times> string) list \<Rightarrow> planner_response) \<Rightarrow> tool_registration list
     \<Rightarrow> nat \<Rightarrow> run_state \<Rightarrow> engine \<Rightarrow> (engine_error + run_outcome) option \<times> engine" where
  "run_drive plan registry fuel rs eng =
     (case drive plan registry fuel rs (invocations eng) of
        (None, ivs) \<Rightarrow> (None, eng\<lparr>invocations := ivs\<rparr>)
      | (Some (Inl e), ivs) \<Rightarrow> (Some (Inl e), eng\<lparr>invocations := ivs\<rparr>)
      | (Some (Inr (out, rs')), ivs) \<Rightarrow>
          (Some (Inr out), \<lparr>store = (store eng)(thread_id rs' \<mapsto> rs'), invocations = ivs\<rparr>))"

text \<open>Modelled from the spec: the \<open>start\<close> operation (4.3).\<close>

definition start ::
  "(message list \<Rightarrow> (string \<times> string) list \<Rightarrow> planner_response) \<Rightarrow> tool_registration list
     \<Rightarrow> nat \<Rightarrow> string \<Rightarrow> string \<Rightarrow> engine \<Rightarrow> (engine_error + run_outcome) option \<times> engine" where
  "start plan registry fuel tid user_text eng =
     (case store eng tid of
        Some rs \<Rightarrow> (Some (Inl DuplicateRunError), eng)
      | None \<Rightarrow>
          run_drive plan registry fuel
            \<lparr>thread_id = tid,
             message_log = [\<lparr>role = User, content_text = user_text, tool_calls = [],
                              tool_call_id = None\<rparr>],
             status = Running, pending_requests = []\<rparr>
            eng)"

text \<open>Modelled from the spec: the \<open>resume\<close> operation (4.3, steps 1 to 4).\<close>

definition resume ::
  "(message list \<Rightarrow> (string \<times> string) list \<Rightarrow> planner_response) \<Rightarrow> tool_registration list
     \<Rightarrow> nat \<Rightarrow> string \<Rightarrow> decision list \<Rightarrow> engine \<Rightarrow> (engine_error + run_outcome) option \<times> engine" where
  "resume plan registry fuel tid decisions eng =
     (case store eng tid of
        None \<Rightarrow> (Some (Inl UnknownThreadError), eng)
      | Some rs \<Rightarrow>
          if status rs \<noteq> Suspended then (Some (Inl NotSuspendedError), eng)
          else if set (map request_id decisions) \<noteq> set (map req_id (pending_requests rs))
          then (Some (Inl DecisionMismatchError), eng)
          else
            (case apply_decisions registry decisions (pending_requests rs)
                    (message_log rs, invocations eng) of
               Inl (e, s) \<Rightarrow> (Some (Inl e), eng\<lparr>invocations := snd s\<rparr>)
             | Inr (log, ivs) \<Rightarrow>
                 run_drive plan registry fuel
                   (rs\<lparr>message_log := log, status := Running, pending_requests := []\<rparr>)
                   (eng\<lparr>invocations := ivs\<rparr>)))"

text \<open>
  The scenario of section 8 of the specification: \<open>read_email\<close> is not gated, \<open>send_email\<close>
  is; the planner first reads the email, then asks to send a reply, then answers.
\<close>

definition example_registry :: "tool_registration list" where
  "example_registry =
     [\<lparr>name = ''read_email'', input_schema = ''{}'',
       invoke = (\<lambda>a. Inr ''From Mark: can we reschedule?''), gated = False\<rparr>,
      \<lparr>name = ''send_email'', input_schema = ''{recipient, subject, body}'',
       invoke = (\<lambda>a. Inr (''Email sent to '' @ dict_get a ''recipient'' [])), gated = True\<rparr>]"

definition send_request :: tool_call_request where
  "send_request =
     \<lparr>req_id = ''call_2'', tool_name = ''send_email'',
      arguments = [(''recipient'', ''mark''), (''subject'', ''re''), (''body'', ''ok'')]\<rparr>"

definition example_plan :: "message list \<Rightarrow> (string \<times> string) list \<Rightarrow> planner_response" where
  "example_plan log cat =
     (if length log = 1
      then \<lparr>response_content = [], response_tool_calls =
              [\<lparr>req_id = ''call_1'', tool_name = ''read_email'', arguments = []\<rparr>]\<rparr>
      else if length log = 3
      then \<lparr>response_content = [], response_tool_calls = [send_request]\<rparr>
      else \<lparr>response_content = ''done'', response_tool_calls = []\<rparr>)"

definition answer_plan :: "message list \<Rightarrow> (string \<times> string) list \<Rightarrow> planner_response" where
  "answer_plan log cat = \<lparr>response_content = ''hello'', response_tool_calls = []\<rparr>"

definition empty_engine :: engine where
  "empty_engine = \<lparr>store = Map.empty, invocations = []\<rparr>"

definition example_suspended :: engine where
  "example_suspended =
     snd (start example_plan example_registry 5 ''t1'' ''read my email and reply'' empty_engine)"

definition example_completed :: engine where
  "example_completed =
     snd (resume example_plan example_registry 5 ''t1''
            [\<lparr>request_id = ''call_2'', verdict = Reject\<rparr>] example_suspended)"

definition example_run_state :: run_state where
  "example_run_state =
     (case store example_suspended ''t1'' of
        Some rs \<Rightarrow> rs
      | None \<Rightarrow> \<lparr>thread_id = [], message_log = [], status = Running, pending_requests = []\<rparr>)"

section \<open>Properties of the approval prompt\<close>

lemma find_dropWhile:
  "find P xs = (case dropWhile (\<lambda>x. \<not> P x) xs of [] \<Rightarrow> None | x # _ \<Rightarrow> Some x)"
  by (induction xs) auto

lemma words_disjoint: "w \<in> set approve_words \<Longrightarrow> w \<notin> set reject_words"
  by (auto simp: approve_words_def reject_words_def u_def)

lemma get_user_decision_find:
  "get_user_decision U inputs =
     (case dropWhile (\<lambda>l. \<not> valid_input U l) inputs of
        [] \<Rightarrow> Inl EOFError
      | l # rest \<Rightarrow> Inr (verdict_of U l, rest))"
  by (induction inputs) (auto simp: valid_input_def verdict_of_def Let_def)

lemma get_user_decision_sql_find:
  "get_user_decision_sql U inputs =
     (case dropWhile (\<lambda>l. \<not> valid_input U l) inputs of
        [] \<Rightarrow> Inl EOFError
      | l # rest \<Rightarrow> Inr (verdict_of U l, rest))"
  by (induction inputs) (auto simp: valid_input_def verdict_of_def Let_def)

lemma get_user_decision_sql_eq: "get_user_decision_sql U = get_user_decision U"
  by (rule ext) (simp add: get_user_decision_find get_user_decision_sql_find)

lemma verdict_of_approve:
  "valid_input U l \<Longrightarrow> verdict_of U l = ''approve'' \<longleftrightarrow> lower U (strip U l) \<in> set approve_words"
  by (simp add: verdict_of_def)

lemma verdict_of_reject:
  "valid_input U l \<Longrightarrow> verdict_of U l = ''reject'' \<longleftrightarrow> lower U (strip U l) \<in> set reject_words"
  by (auto simp: verdict_of_def valid_input_def dest: words_disjoint)

lemma dropWhile_valid_hd:
  "dropWhile (\<lambda>l. \<not> valid_input U l) inputs = l # rest \<Longrightarrow> valid_input U l"
  using hd_dropWhile[of "\<lambda>l. \<not> valid_input U l" inputs] by auto

text \<open>
  Claim C3. For every sequence of input lines, and whatever the Unicode tables of the
  runtime are, each prompt returns \<open>approve\<close> exactly when the first valid line (after
  \<open>strip\<close> and \<open>lower\<close>) is one of a, approve, yes, y, and \<open>reject\<close> exactly when it is
  one of r, reject, no, n; every other line is skipped and the prompt reads again; when no
  valid line arrives the read fails with \<open>EOFError\<close>. So a returned verdict is always
  \<open>approve\<close> or \<open>reject\<close>.
\<close>

theorem get_user_decision_verdict:
  fixes U :: unicode and inputs :: "ustr list"
  defines "first \<equiv> find (valid_input U) inputs"
  shows
  "(\<forall>gud \<in> {get_user_decision U, get_user_decision_sql U}.
      ((\<exists>rest. gud inputs = Inr (''approve'', rest)) \<longleftrightarrow>
         (\<exists>l. first = Some l \<and> lower U (strip U l) \<in> set approve_words)) \<and>
      ((\<exists>rest. gud inputs = Inr (''reject'', rest)) \<longleftrightarrow>
         (\<exists>l. first = Some l \<and> lower U (strip U l) \<in> set reject_words)) \<and>
      (gud inputs = Inl EOFError \<longleftrightarrow> first = None) \<and>
      (\<forall>l rest. \<not> valid_input U l \<longrightarrow> gud (l # rest) = gud rest) \<and>
      (\<forall>v rest. gud inputs = Inr (v, rest) \<longrightarrow> v = ''approve'' \<or> v = ''reject''))"
proof -
  have main:
    "((\<exists>rest. get_user_decision U inputs = Inr (''approve'', rest)) \<longleftrightarrow>
         (\<exists>l. first = Some l \<and> lower U (strip U l) \<in> set approve_words)) \<and>
      ((\<exists>rest. get_user_decision U inputs = Inr (''reject'', rest)) \<longleftrightarrow>
         (\<exists>l. first = Some l \<and> lower U (strip U l) \<in> set reject_words)) \<and>
      (get_user_decision U inputs = Inl EOFError \<longleftrightarrow> first = None) \<and>
      (\<forall>l rest. \<not> valid_input U l \<longrightarrow> get_user_decision U (l # rest) = get_user_decision U rest) \<and>
      (\<forall>v rest. get_user_decision U inputs = Inr (v, rest) \<longrightarrow> v = ''approve'' \<or> v = ''reject'')"
  proof -
    have reprompt: "\<forall>l rest. \<not> valid_input U l \<longrightarrow>
        get_user_decision U (l # rest) = get_user_decision U rest"
      by (simp add: valid_input_def Let_def)
    show ?thesis
    proof (cases "dropWhile (\<lambda>l. \<not> valid_input U l) inputs")
      case Nil
      have g: "get_user_decision U inputs = Inl EOFError"
        by (simp only: get_user_decision_find Nil list.case)
      have f: "first = None"
        by (simp only: first_def find_dropWhile Nil list.case)
      show ?thesis using reprompt by (simp add: g f)
    next
      case (Cons l rest)
      then have v: "valid_input U l" by (rule dropWhile_valid_hd)
      have g: "get_user_decision U inputs = Inr (verdict_of U l, rest)"
        by (simp only: get_user_decision_find Cons list.case)
      have f: "first = Some l"
        by (simp only: first_def find_dropWhile Cons list.case)
      show ?thesis
        using verdict_of_approve[OF v] verdict_of_reject[OF v] reprompt
        by (auto simp: g f verdict_of_def)
    qed
  qed
  then show ?thesis by (simp add: get_user_decision_sql_eq)
qed

theorem get_user_decision_verdict_witness:
  "\<not> valid_input example_unicode (u ''maybe'') \<and>
   find (valid_input example_unicode) [u ''maybe'', u '' YES  '', u ''n''] = Some (u '' YES  '') \<and>
   lower example_unicode (strip example_unicode (u '' YES  '')) \<in> set approve_words \<and>
   (\<exists>rest. get_user_decision example_unicode [u ''maybe'', u '' YES  '', u ''n'']
              = Inr (''approve'', rest)) \<and>
   get_user_decision_sql example_unicode (u ''maybe'' # [u '' YES  '', u ''n''])
     = get_user_decision_sql example_unicode [u '' YES  '', u ''n''] \<and>
   find (valid_input example_unicode) [0xA0 # u ''n'', u ''y''] = Some (0xA0 # u ''n'') \<and>
   lower example_unicode (strip example_unicode (0xA0 # u ''n'')) \<in> set reject_words \<and>
   (\<exists>rest. get_user_decision example_unicode [0xA0 # u ''n'', u ''y''] = Inr (''reject'', rest))"
proof -
  have h1: "\<not> valid_input example_unicode (u ''maybe'')" by code_simp
  have h2: "find (valid_input example_unicode) [u ''maybe'', u '' YES  '', u ''n'']
      = Some (u '' YES  '')" by code_simp
  have h3: "lower example_unicode (strip example_unicode (u '' YES  '')) \<in> set approve_words"
    by code_simp
  note t = get_user_decision_verdict [of example_unicode "[u ''maybe'', u '' YES  '', u ''n'']"]
  from t h2 h3 have a: "\<exists>rest. get_user_decision example_unicode
      [u ''maybe'', u '' YES  '', u ''n''] = Inr (''approve'', rest)"
    by blast
  from t h1 have b: "get_user_decision_sql example_unicode (u ''maybe'' # [u '' YES  '', u ''n''])
     = get_user_decision_sql example_unicode [u '' YES  '', u ''n'']"
    by blast
  have h4: "find (valid_input example_unicode) [0xA0 # u ''n'', u ''y''] = Some (0xA0 # u ''n'')"
    by code_simp
  have h5: "lower example_unicode (strip example_unicode (0xA0 # u ''n'')) \<in> set reject_words"
    by code_simp
  note t2 = get_user_decision_verdict [of example_unicode "[0xA0 # u ''n'', u ''y'']"]
  from t2 h4 h5 have c: "\<exists>rest. get_user_decision example_unicode [0xA0 # u ''n'', u ''y'']
      = Inr (''reject'', rest)"
    by blast
  from h1 h2 h3 a b h4 h5 c show ?thesis by blast
qed

section \<open>Properties of the SQL tools\<close>

lemma rstrip_Cons: "\<not> isspace U c \<Longrightarrow> rstrip U (c # t) = c # rstrip U t"
  by (simp add: rstrip_def dropWhile_append)

lemma rstrip_append: "\<forall>c\<in>set p. \<not> isspace U c \<Longrightarrow> rstrip U (p @ t) = p @ rstrip U t"
  by (induction p) (simp_all add: rstrip_Cons)

lemma lstrip_append: "p \<noteq> [] \<Longrightarrow> \<not> isspace U (hd p) \<Longrightarrow> lstrip U (p @ t) = p @ t"
  by (cases p) (simp_all add: lstrip_def)

lemma strip_keyword:
  assumes "p \<noteq> []" and "\<forall>c\<in>set p. \<not> isspace U c"
  shows "strip U (p @ t) = p @ rstrip U t"
proof -
  from assms have "\<not> isspace U (hd p)" by (cases p) simp_all
  with assms show ?thesis by (simp add: strip_def lstrip_append rstrip_append)
qed

lemma upper_fixed: "\<forall>c\<in>set p. upper_of U c = [c] \<Longrightarrow> upper U (p @ t) = p @ upper U t"
  by (induction p) (simp_all add: upper_def)

lemma startswith_keyword:
  assumes "p \<noteq> []" and "\<forall>c\<in>set p. \<not> isspace U c \<and> upper_of U c = [c]"
  shows "startswith (upper U (strip U (p @ t))) p"
proof -
  have "upper U (strip U (p @ t)) = p @ upper U (rstrip U t)"
    using assms by (simp add: strip_keyword upper_fixed)
  then show ?thesis by (simp add: startswith_def)
qed

lemma keeps_capitals_mem:
  "keeps_capitals U \<Longrightarrow> c \<in> set (u ''ABCDEFGHIJKLMNOPQRSTUVWXYZ'') \<Longrightarrow>
   \<not> isspace U c \<and> upper_of U c = [c]"
  by (simp only: keeps_capitals_def list_all_iff) blast

lemma write_command_capitals:
  "cmd \<in> set write_commands \<Longrightarrow>
   cmd \<noteq> [] \<and> set cmd \<subseteq> set (u ''ABCDEFGHIJKLMNOPQRSTUVWXYZ'')"
  by (auto simp: write_commands_def u_def)

lemma select_capitals:
  "u ''SELECT'' \<noteq> [] \<and> set (u ''SELECT'') \<subseteq> set (u ''ABCDEFGHIJKLMNOPQRSTUVWXYZ'')"
  by (auto simp: u_def)

lemma startswith_take:
  "length p \<le> n \<Longrightarrow> startswith (take n s) p = startswith s p"
  by (simp add: startswith_def min_def)

lemma write_commands_length: "cmd \<in> set write_commands \<Longrightarrow> length cmd \<le> 8"
  by (auto simp: write_commands_def u_def)

lemma list_ex_startswith_take:
  "list_ex (startswith (take 8 s)) write_commands = list_ex (startswith s) write_commands"
  by (simp add: list_ex_iff startswith_take write_commands_length cong: bex_cong)

text \<open>
  Claim C8. Each SQL tool reaches the database only when its prefix guard passes,
  whatever the Unicode tables of the runtime are: a query whose stripped, upper-cased
  text does not start with SELECT makes \<open>execute_select_query\<close> return its refusal with the
  database untouched (no call of \<open>db.run\<close>), and a query that starts with none of the seven
  write keywords makes \<open>execute_write_query\<close> return its refusal in the same way; when the
  guard passes, \<open>db.run\<close> is called once with the whole query. The guard reads the leading
  keyword only: it is decided by the first 6 (first 8) characters of the stripped,
  upper-cased text, and with tables that keep the ASCII capitals a keyword followed by
  any text at all passes.
\<close>

theorem sql_prefix_guard:
  "(\<not> startswith (upper U (strip U query)) (u ''SELECT'') \<longrightarrow>
      execute_select_query U run query d = (Inr select_refusal, d)) \<and>
   (\<not> list_ex (startswith (upper U (strip U query))) write_commands \<longrightarrow>
      execute_write_query U run query d = (Inr write_refusal, d)) \<and>
   (startswith (upper U (strip U query)) (u ''SELECT'') \<longrightarrow>
      calls (snd (execute_select_query U run query d)) = calls d @ [query]) \<and>
   (list_ex (startswith (upper U (strip U query))) write_commands \<longrightarrow>
      calls (snd (execute_write_query U run query d)) = calls d @ [query]) \<and>
   (startswith (upper U (strip U query)) (u ''SELECT'') \<longleftrightarrow>
      take 6 (upper U (strip U query)) = u ''SELECT'') \<and>
   (list_ex (startswith (upper U (strip U query))) write_commands \<longleftrightarrow>
      list_ex (startswith (take 8 (upper U (strip U query)))) write_commands) \<and>
   (keeps_capitals U \<longrightarrow>
      startswith (upper U (strip U (u ''SELECT'' @ tail))) (u ''SELECT'') \<and>
      (\<forall>cmd \<in> set write_commands.
         list_ex (startswith (upper U (strip U (cmd @ tail)))) write_commands))"
proof -
  have a: "\<not> startswith (upper U (strip U query)) (u ''SELECT'') \<longrightarrow>
      execute_select_query U run query d = (Inr select_refusal, d)"
    by (simp add: execute_select_query_def)
  have b: "\<not> list_ex (startswith (upper U (strip U query))) write_commands \<longrightarrow>
      execute_write_query U run query d = (Inr write_refusal, d)"
    by (simp add: execute_write_query_def Let_def)
  have c: "startswith (upper U (strip U query)) (u ''SELECT'') \<longrightarrow>
      calls (snd (execute_select_query U run query d)) = calls d @ [query]"
    by (auto simp: execute_select_query_def db_run_def
        split: prod.splits db_outcome.splits py_raise.splits)
  have d: "list_ex (startswith (upper U (strip U query))) write_commands \<longrightarrow>
      calls (snd (execute_write_query U run query d)) = calls d @ [query]"
    by (auto simp: execute_write_query_def Let_def db_run_def
        split: prod.splits db_outcome.splits py_raise.splits)
  have e: "startswith (upper U (strip U query)) (u ''SELECT'') \<longleftrightarrow>
      take 6 (upper U (strip U query)) = u ''SELECT''"
  proof -
    have "length (u ''SELECT'') = 6" by (simp add: u_def)
    then show ?thesis unfolding startswith_def by (simp only:)
  qed
  have f: "list_ex (startswith (upper U (strip U query))) write_commands \<longleftrightarrow>
      list_ex (startswith (take 8 (upper U (strip U query)))) write_commands"
    by (simp only: list_ex_startswith_take)
  have g: "keeps_capitals U \<longrightarrow>
      startswith (upper U (strip U (u ''SELECT'' @ tail))) (u ''SELECT'') \<and>
      (\<forall>cmd \<in> set write_commands.
         list_ex (startswith (upper U (strip U (cmd @ tail)))) write_commands)"
  proof
    assume k: "keeps_capitals U"
    have s: "startswith (upper U (strip U (u ''SELECT'' @ tail))) (u ''SELECT'')"
      using select_capitals keeps_capitals_mem[OF k]
      by (intro startswith_keyword) blast+
    have w: "\<forall>cmd \<in> set write_commands.
         list_ex (startswith (upper U (strip U (cmd @ tail)))) write_commands"
    proof
      fix cmd assume m: "cmd \<in> set write_commands"
      have "startswith (upper U (strip U (cmd @ tail))) cmd"
        using write_command_capitals[OF m] keeps_capitals_mem[OF k]
        by (intro startswith_keyword) blast+
      with m show "list_ex (startswith (upper U (strip U (cmd @ tail)))) write_commands"
        by (auto simp: list_ex_iff)
    qed
    from s w show "startswith (upper U (strip U (u ''SELECT'' @ tail))) (u ''SELECT'') \<and>
      (\<forall>cmd \<in> set write_commands.
         list_ex (startswith (upper U (strip U (cmd @ tail)))) write_commands)" by blast
  qed
  from a b c d e f g show ?thesis by blast
qed

theorem sql_prefix_guard_witness:
  "\<not> startswith (upper example_unicode (strip example_unicode (u ''  drop table artist'')))
       (u ''SELECT'') \<and>
   execute_select_query example_unicode example_run (u ''  drop table artist'')
       \<lparr>contents = [u ''a''], calls = []\<rparr>
     = (Inr select_refusal, \<lparr>contents = [u ''a''], calls = []\<rparr>) \<and>
   \<not> list_ex (startswith (upper example_unicode (strip example_unicode (u ''select 1''))))
       write_commands \<and>
   execute_write_query example_unicode example_run (u ''select 1'')
       \<lparr>contents = [u ''a''], calls = []\<rparr>
     = (Inr write_refusal, \<lparr>contents = [u ''a''], calls = []\<rparr>) \<and>
   startswith (upper example_unicode (strip example_unicode (u '' select 1; drop table artist'')))
       (u ''SELECT'') \<and>
   calls (snd (execute_select_query example_unicode example_run
       (u '' select 1; drop table artist'') \<lparr>contents = [u ''a''], calls = []\<rparr>))
     = [] @ [u '' select 1; drop table artist''] \<and>
   list_ex (startswith (upper example_unicode (strip example_unicode (0xA0 # u ''DELETE FROM t''))))
       write_commands \<and>
   calls (snd (execute_write_query example_unicode example_run (0xA0 # u ''DELETE FROM t'')
       \<lparr>contents = [u ''a''], calls = []\<rparr>))
     = [] @ [0xA0 # u ''DELETE FROM t''] \<and>
   keeps_capitals example_unicode \<and>
   u ''DROP'' \<in> set write_commands \<and>
   list_ex (startswith (upper example_unicode (strip example_unicode
       (u ''DROP'' @ u '' x; SELECT 1'')))) write_commands"
proof -
  let ?d = "\<lparr>contents = [u ''a''], calls = []\<rparr> :: ustr list sqldb"
  have h1: "\<not> startswith (upper example_unicode (strip example_unicode (u ''  drop table artist'')))
       (u ''SELECT'')" by code_simp
  have h2: "\<not> list_ex (startswith (upper example_unicode (strip example_unicode (u ''select 1''))))
       write_commands" by code_simp
  have h3: "startswith (upper example_unicode
       (strip example_unicode (u '' select 1; drop table artist''))) (u ''SELECT'')" by code_simp
  have h4: "list_ex (startswith (upper example_unicode
       (strip example_unicode (0xA0 # u ''DELETE FROM t'')))) write_commands" by code_simp
  have h5: "keeps_capitals example_unicode" by code_simp
  have h6: "u ''DROP'' \<in> set write_commands" by code_simp
  have c: "calls ?d = []" by simp
  note t1 = sql_prefix_guard [where U = example_unicode and query = "u ''  drop table artist''"
      and run = example_run and d = ?d and tail = "u '' x; SELECT 1''"]
  note t2 = sql_prefix_guard [where U = example_unicode and query = "u ''select 1''"
      and run = example_run and d = ?d and tail = "u '' x; SELECT 1''"]
  note t3 = sql_prefix_guard [where U = example_unicode
      and query = "u '' select 1; drop table artist''"
      and run = example_run and d = ?d and tail = "u '' x; SELECT 1''"]
  note t4 = sql_prefix_guard [where U = example_unicode and query = "0xA0 # u ''DELETE FROM t''"
      and run = example_run and d = ?d and tail = "u '' x; SELECT 1''"]
  from t1 h1 have a1: "execute_select_query example_unicode example_run
      (u ''  drop table artist'') ?d = (Inr select_refusal, ?d)" by blast
  from t2 h2 have a2: "execute_write_query example_unicode example_run (u ''select 1'') ?d
      = (Inr write_refusal, ?d)" by blast
  from t3 h3 have a3: "calls (snd (execute_select_query example_unicode example_run
       (u '' select 1; drop table artist'') ?d))
     = calls ?d @ [u '' select 1; drop table artist'']" by blast
  from t4 h4 have a4: "calls (snd (execute_write_query example_unicode example_run
       (0xA0 # u ''DELETE FROM t'') ?d)) = calls ?d @ [0xA0 # u ''DELETE FROM t'']" by blast
  from t1 h5 h6 have a5: "list_ex (startswith (upper example_unicode (strip example_unicode
       (u ''DROP'' @ u '' x; SELECT 1'')))) write_commands" by blast
  from h1 h2 h3 h4 h5 h6 a1 a2 a3 a4 a5 show ?thesis unfolding c by blast
qed

text \<open>
  Claim C4. When \<open>db.run\<close> raises an \<open>Exception\<close> on a query, \<open>execute_select_query\<close> and
  \<open>execute_write_query\<close> catch it: a tool whose guard let the query through returns the
  payload \<open>Error:\<close> followed by the exception's text, and in every case the tool returns a
  payload that begins with \<open>Error:\<close> and raises nothing.
\<close>

theorem sql_tools_catch_exceptions:
  assumes "fst (run query (contents d)) = Raises (Exception e)"
  shows
  "(startswith (upper U (strip U query)) (u ''SELECT'') \<longrightarrow>
      execute_select_query U run query d = (Inr (''Error: '' @ e), snd (db_run run query d))) \<and>
   (list_ex (startswith (upper U (strip U query))) write_commands \<longrightarrow>
      execute_write_query U run query d = (Inr (''Error: '' @ e), snd (db_run run query d))) \<and>
   (\<exists>payload. fst (execute_select_query U run query d) = Inr payload \<and>
      startswith payload ''Error:'') \<and>
   (\<exists>payload. fst (execute_write_query U run query d) = Inr payload \<and>
      startswith payload ''Error:'')"
proof -
  obtain c where r: "run query (contents d) = (Raises (Exception e), c)"
    using assms by (cases "run query (contents d)") simp
  have s: "execute_select_query U run query d =
      (if startswith (upper U (strip U query)) (u ''SELECT'')
       then (Inr (''Error: '' @ e), snd (db_run run query d)) else (Inr select_refusal, d))"
    by (simp add: execute_select_query_def db_run_def r)
  have w: "execute_write_query U run query d =
      (if list_ex (startswith (upper U (strip U query))) write_commands
       then (Inr (''Error: '' @ e), snd (db_run run query d)) else (Inr write_refusal, d))"
    by (simp add: execute_write_query_def Let_def db_run_def r)
  show ?thesis
    by (simp add: s w startswith_def select_refusal_def write_refusal_def)
qed

theorem sql_tools_catch_exceptions_witness:
  "fst (example_run (u ''SELECT 'x'') (contents \<lparr>contents = [u ''a''], calls = []\<rparr>))
     = Raises (Exception ''syntax error'') \<and>
   startswith (upper example_unicode (strip example_unicode (u ''SELECT 'x''))) (u ''SELECT'') \<and>
   execute_select_query example_unicode example_run (u ''SELECT 'x'')
       \<lparr>contents = [u ''a''], calls = []\<rparr>
     = (Inr (''Error: '' @ ''syntax error''),
        snd (db_run example_run (u ''SELECT 'x'') \<lparr>contents = [u ''a''], calls = []\<rparr>)) \<and>
   snd (db_run example_run (u ''SELECT 'x'') \<lparr>contents = [u ''a''], calls = []\<rparr>)
     = \<lparr>contents = [u ''a''], calls = [u ''SELECT 'x'']\<rparr>"
proof -
  let ?d = "\<lparr>contents = [u ''a''], calls = []\<rparr> :: ustr list sqldb"
  have h1: "fst (example_run (u ''SELECT 'x'') (contents ?d))
     = Raises (Exception ''syntax error'')" by code_simp
  have h2: "startswith (upper example_unicode (strip example_unicode (u ''SELECT 'x'')))
     (u ''SELECT'')" by code_simp
  have h3: "snd (db_run example_run (u ''SELECT 'x'') ?d)
     = \<lparr>contents = [u ''a''], calls = [u ''SELECT 'x'']\<rparr>" by code_simp
  from sql_tools_catch_exceptions [where run = example_run and query = "u ''SELECT 'x''"
      and d = ?d and e = "''syntax error''" and U = example_unicode, OF h1] h2 h1 h3
  show ?thesis by blast
qed

section \<open>Properties of the note tools\<close>

lemma load_notes_reload:
  "notes_cache st = None \<or> force_reload \<Longrightarrow>
   load_notes loader force_reload st =
     (map to_note (loader (vault st)),
      st\<lparr>notes_cache := Some (map to_note (loader (vault st)))\<rparr>)"
  by (auto simp: load_notes_def Let_def split: option.splits)

lemma load_notes_cached:
  "notes_cache st = Some c \<Longrightarrow> load_notes loader False st = (c, st)"
  by (simp add: load_notes_def)

lemma load_notes_result:
  "load_notes loader force_reload st = (r, st') \<Longrightarrow>
   notes_cache st' = Some r \<and> vault st' = vault st"
  by (auto simp: load_notes_def Let_def split: option.splits if_splits)

text \<open>
  Claim C10. \<open>load_notes\<close> caches lazily: a call that finds the cache empty, or any call with
  \<open>force_reload=True\<close>, reads the vault through the loader, stores the list and returns it;
  a call with \<open>force_reload=False\<close> on a filled cache returns the cached list and changes
  nothing. After any call, every further default call returns that same list, whatever the
  loader would read and whatever the vault holds by then.
\<close>

theorem load_notes_lazy_cache:
  "(notes_cache st = None \<or> force_reload \<longrightarrow>
      load_notes loader force_reload st =
        (map to_note (loader (vault st)),
         st\<lparr>notes_cache := Some (map to_note (loader (vault st)))\<rparr>)) \<and>
   (\<forall>c. notes_cache st = Some c \<longrightarrow> load_notes loader False st = (c, st)) \<and>
   (\<forall>r st'. load_notes loader force_reload st = (r, st') \<longrightarrow>
      notes_cache st' = Some r \<and> vault st' = vault st \<and>
      (\<forall>loader' v. load_notes loader' False (st'\<lparr>vault := v\<rparr>) = (r, st'\<lparr>vault := v\<rparr>)))"
proof (intro conjI allI impI)
  fix r st' loader' v
  assume a: "load_notes loader force_reload st = (r, st')"
  from load_notes_result[OF a] show "notes_cache st' = Some r" and "vault st' = vault st"
    by simp_all
  from load_notes_result[OF a] have "notes_cache (st'\<lparr>vault := v\<rparr>) = Some r" by simp
  then show "load_notes loader' False (st'\<lparr>vault := v\<rparr>) = (r, st'\<lparr>vault := v\<rparr>)"
    by (rule load_notes_cached)
qed (simp_all add: load_notes_reload load_notes_cached)


theorem load_notes_lazy_cache_witness:
  "notes_cache \<lparr>vault = example_vault, notes_cache = None\<rparr> = None \<and>
   load_notes example_loader False \<lparr>vault = example_vault, notes_cache = None\<rparr> =
     (map to_note (example_loader example_vault),
      \<lparr>vault = example_vault, notes_cache = Some (map to_note (example_loader example_vault))\<rparr>) \<and>
   load_notes (\<lambda>v. []) False
     \<lparr>vault = Map.empty, notes_cache = Some (map to_note (example_loader example_vault))\<rparr> =
     (map to_note (example_loader example_vault),
      \<lparr>vault = Map.empty, notes_cache = Some (map to_note (example_loader example_vault))\<rparr>)"
proof -
  let ?st = "\<lparr>vault = example_vault, notes_cache = None\<rparr>"
  let ?r = "map to_note (example_loader example_vault)"
  let ?st' = "\<lparr>vault = example_vault, notes_cache = Some ?r\<rparr>"
  note t = load_notes_lazy_cache [of ?st False example_loader]
  have h: "notes_cache ?st = None" by simp
  from t h have a: "load_notes example_loader False ?st = (?r, ?st\<lparr>notes_cache := Some ?r\<rparr>)"
    by simp
  then have a': "load_notes example_loader False ?st = (?r, ?st')" by simp
  from t a' have "\<forall>loader' v. load_notes loader' False (?st'\<lparr>vault := v\<rparr>) = (?r, ?st'\<lparr>vault := v\<rparr>)"
    by blast
  then have "load_notes (\<lambda>v. []) False (?st'\<lparr>vault := Map.empty\<rparr>) = (?r, ?st'\<lparr>vault := Map.empty\<rparr>)"
    by blast
  then have b: "load_notes (\<lambda>v. []) False \<lparr>vault = Map.empty, notes_cache = Some ?r\<rparr>
      = (?r, \<lparr>vault = Map.empty, notes_cache = Some ?r\<rparr>)" by simp
  from h a' b show ?thesis by blast
qed


text \<open>
  Claim C9. An error return of \<open>correct_note\<close> does not mean the vault is unchanged: when
  the two titles differ and both files exist, \<open>correct_note\<close> has already written the new
  content to the old file when it returns \<open>Error: '<new title>' already exists\<close>; the file is
  not renamed (the other file keeps its content) and the notes cache is left as it was.
\<close>

theorem correct_note_error_after_write:
  assumes "note_title \<noteq> new_note_title"
    and "vault st (note_title @ ''.md'') \<noteq> None"
    and "vault st (new_note_title @ ''.md'') \<noteq> None"
  shows "correct_note loader note_title new_note_title new_note_content st =
           (''Error: '' @ quoted new_note_title @ '' already exists'',
            st\<lparr>vault := (vault st)(note_title @ ''.md'' \<mapsto> new_note_content)\<rparr>) \<and>
         vault (snd (correct_note loader note_title new_note_title new_note_content st))
           (note_title @ ''.md'') = Some new_note_content \<and>
         vault (snd (correct_note loader note_title new_note_title new_note_content st))
           (new_note_title @ ''.md'') = vault st (new_note_title @ ''.md'') \<and>
         notes_cache (snd (correct_note loader note_title new_note_title new_note_content st))
           = notes_cache st"
  using assms by (auto simp: correct_note_def Let_def)

theorem correct_note_error_after_write_witness:
  "''a'' \<noteq> ''b'' \<and>
   vault example_loaded (''a'' @ ''.md'') \<noteq> None \<and>
   vault example_loaded (''b'' @ ''.md'') \<noteq> None \<and>
   correct_note example_loader ''a'' ''b'' ''new'' example_loaded =
     (''Error: '' @ quoted ''b'' @ '' already exists'',
      example_loaded\<lparr>vault := (vault example_loaded)(''a'' @ ''.md'' \<mapsto> ''new'')\<rparr>) \<and>
   notes_cache (snd (correct_note example_loader ''a'' ''b'' ''new'' example_loaded))
     = notes_cache example_loaded"
proof -
  have h1: "''a'' \<noteq> ''b''" by simp
  have h2: "vault example_loaded (''a'' @ ''.md'') \<noteq> None" by code_simp
  have h3: "vault example_loaded (''b'' @ ''.md'') \<noteq> None" by code_simp
  from correct_note_error_after_write [of "''a''" "''b''" example_loaded example_loader "''new''", OF h1 h2 h3]
    h1 h2 h3 show ?thesis by blast
qed


lemma correct_note_success_consistent:
  assumes "vault st (note_title @ ''.md'') \<noteq> None"
    and "note_title = new_note_title \<or> vault st (new_note_title @ ''.md'') = None"
  shows "consistent loader (snd (correct_note loader note_title new_note_title new_note_content st))"
  using assms
  by (auto simp: correct_note_def consistent_def inspect_notes_def load_notes_def Let_def
      split: option.splits)

text \<open>
  Claim C5. The claim fails on the error path of \<open>correct_note\<close>: in the example run the cache
  is filled and agrees with the vault, \<open>correct_note\<close> overwrites \<open>a.md\<close> and returns the
  error without the call \<open>load_notes(force_reload=True)\<close> that both other paths make, and the
  next \<open>inspect_notes\<close> still returns the old content of note \<open>a\<close>.
\<close>

theorem correct_note_stale_cache:
  "consistent example_loader example_loaded \<and>
   fst example_corrected = ''Error: '' @ quoted ''b'' @ '' already exists'' \<and>
   vault example_loaded ''a.md'' = Some ''old'' \<and>
   vault (snd example_corrected) ''a.md'' = Some ''new'' \<and>
   fst (inspect_notes example_loader (snd example_corrected)) =
     [\<lparr>title = ''a'', content = ''old''\<rparr>, \<lparr>title = ''b'', content = ''other''\<rparr>] \<and>
   map to_note (example_loader (vault (snd example_corrected))) =
     [\<lparr>title = ''a'', content = ''new''\<rparr>, \<lparr>title = ''b'', content = ''other''\<rparr>] \<and>
   \<not> consistent example_loader (snd example_corrected)"
proof -
  have a: "consistent example_loader example_loaded" by code_simp
  have b: "fst example_corrected = ''Error: '' @ quoted ''b'' @ '' already exists''" by code_simp
  have c: "vault example_loaded ''a.md'' = Some ''old''" by code_simp
  have d: "vault (snd example_corrected) ''a.md'' = Some ''new''" by code_simp
  have e: "fst (inspect_notes example_loader (snd example_corrected)) =
     [\<lparr>title = ''a'', content = ''old''\<rparr>, \<lparr>title = ''b'', content = ''other''\<rparr>]" by code_simp
  have f: "map to_note (example_loader (vault (snd example_corrected))) =
     [\<lparr>title = ''a'', content = ''new''\<rparr>, \<lparr>title = ''b'', content = ''other''\<rparr>]" by code_simp
  have g: "\<not> consistent example_loader (snd example_corrected)" by code_simp
  from a b c d e f g show ?thesis by blast
qed

section \<open>Properties of the driver loops\<close>

lemma get_user_decision_range:
  "get_user_decision U inputs = Inr (v, rest) \<Longrightarrow> v = ''approve'' \<or> v = ''reject''"
  by (induction inputs) (auto simp: Let_def split: if_splits)

lemma get_user_decision_sql_range:
  "get_user_decision_sql U inputs = Inr (v, rest) \<Longrightarrow> v = ''approve'' \<or> v = ''reject''"
  by (induction inputs) (auto simp: Let_def split: if_splits)



lemma prompts_append: "prompts (xs @ ys) = prompts xs @ prompts ys"
  by (induction xs rule: prompts.induct) simp_all



lemma email_loop_Suc_cases:
  obtains
    (stop) "snd (email_loop U agent_invoke (Suc fuel) res d) = d"
  | (eof) p where "interrupt_key res \<noteq> None"
      "trace (snd (email_loop U agent_invoke (Suc fuel) res d)) = trace d @ [Prompted p]"
  | (err) p v e where "v = ''approve'' \<or> v = ''reject''" "interrupt_key res \<noteq> None"
      "trace (snd (email_loop U agent_invoke (Suc fuel) res d))
         = trace d @ [Prompted p, Invoked (resume_command v) (Inl e)]"
  | (cont) p v res' d2 where "v = ''approve'' \<or> v = ''reject''"
      "interrupt_key res \<noteq> None"
      "trace d2 = trace d @ [Prompted p, Invoked (resume_command v) (Inr res')]"
      "email_loop U agent_invoke (Suc fuel) res d = email_loop U agent_invoke fuel res' d2"
proof (cases "interrupt_key res")
  case None
  then show ?thesis using stop by simp
next
  case (Some interrupts)
  show ?thesis
  proof (cases "last_item interrupts")
    case (Inl e)
    then show ?thesis using stop Some by simp
  next
    case i: (Inr i)
    show ?thesis
    proof (cases "last_item (action_requests i)")
      case (Inl e)
      then show ?thesis using stop Some i by simp
    next
      case rq: (Inr request)
      define p where "p = [received_email_of (messages res),
         ''To: '' @ dict_get (args request) ''recipient'' [] @ ''\<newline>Subject: ''
           @ dict_get (args request) ''subject'' [] @ ''\<newline>\<newline>''
           @ dict_get (args request) ''body'' []]"
      show ?thesis
      proof (cases "get_user_decision U (stdin d)")
        case (Inl e)
        have "trace (snd (email_loop U agent_invoke (Suc fuel) res d)) = trace d @ [Prompted p]"
          using Some i rq Inl by (simp add: Let_def p_def)
        moreover have "interrupt_key res \<noteq> None" using Some by simp
        ultimately show ?thesis using eof by blast
      next
        case (Inr vr)
        obtain v rest where vr: "vr = (v, rest)" by (cases vr)
        have v: "v = ''approve'' \<or> v = ''reject''"
          using Inr vr get_user_decision_range by blast
        obtain r w where rw: "agent_invoke (resume_command v) (world d) = (r, w)"
          by (cases "agent_invoke (resume_command v) (world d)")
        define d2 where "d2 = d\<lparr>world := w, stdin := rest,
            trace := trace d @ [Prompted p, Invoked (resume_command v) r]\<rparr>"
        have t2: "trace d2 = trace d @ [Prompted p, Invoked (resume_command v) r]"
          by (simp add: d2_def)
        show ?thesis
        proof (cases r)
          case (Inl e)
          have "email_loop U agent_invoke (Suc fuel) res d = (Raised e, d2)"
            using Some i rq Inr vr rw Inl by (simp add: Let_def p_def d2_def)
          then have "trace (snd (email_loop U agent_invoke (Suc fuel) res d))
              = trace d @ [Prompted p, Invoked (resume_command v) (Inl e)]"
            using t2 Inl by (simp del: email_loop.simps)
          moreover have "interrupt_key res \<noteq> None" using Some by simp
          ultimately show ?thesis using err[OF v] by blast
        next
          case r: (Inr res')
          have "email_loop U agent_invoke (Suc fuel) res d = email_loop U agent_invoke fuel res' d2"
            using Some i rq Inr vr rw r by (simp add: Let_def p_def d2_def)
          moreover have "trace d2 = trace d @ [Prompted p, Invoked (resume_command v) (Inr res')]"
            using t2 r by simp
          moreover have "interrupt_key res \<noteq> None" using Some by simp
          ultimately show ?thesis using cont[OF v] by blast
        qed
      qed
    qed
  qed
qed



lemma sql_loop_Suc_cases:
  obtains
    (stop) "snd (sql_loop U agent_invoke (Suc fuel) res d) = d"
  | (eof) p where "interrupt_key res \<noteq> None"
      "trace (snd (sql_loop U agent_invoke (Suc fuel) res d)) = trace d @ [Prompted p]"
  | (err) p v e where "v = ''approve'' \<or> v = ''reject''" "interrupt_key res \<noteq> None"
      "trace (snd (sql_loop U agent_invoke (Suc fuel) res d))
         = trace d @ [Prompted p, Invoked (resume_command v) (Inl e)]"
  | (cont) p v res' d2 where "v = ''approve'' \<or> v = ''reject''"
      "interrupt_key res \<noteq> None"
      "trace d2 = trace d @ [Prompted p, Invoked (resume_command v) (Inr res')]"
      "sql_loop U agent_invoke (Suc fuel) res d = sql_loop U agent_invoke fuel res' d2"
proof (cases "interrupt_key res")
  case None
  then show ?thesis using stop by simp
next
  case (Some interrupts)
  show ?thesis
  proof (cases "last_item interrupts")
    case (Inl e)
    then show ?thesis using stop Some by simp
  next
    case i: (Inr i)
    show ?thesis
    proof (cases "last_item (action_requests i)")
      case (Inl e)
      then show ?thesis using stop Some i by simp
    next
      case rq: (Inr request)
      define p where "p = [dict_get (args request) ''query'' []]"
      show ?thesis
      proof (cases "get_user_decision_sql U (stdin d)")
        case (Inl e)
        have "trace (snd (sql_loop U agent_invoke (Suc fuel) res d)) = trace d @ [Prompted p]"
          using Some i rq Inl by (simp add: Let_def p_def)
        moreover have "interrupt_key res \<noteq> None" using Some by simp
        ultimately show ?thesis using eof by blast
      next
        case (Inr vr)
        obtain v rest where vr: "vr = (v, rest)" by (cases vr)
        have v: "v = ''approve'' \<or> v = ''reject''"
          using Inr vr get_user_decision_sql_range by blast
        obtain r w where rw: "agent_invoke (resume_command v) (world d) = (r, w)"
          by (cases "agent_invoke (resume_command v) (world d)")
        define d2 where "d2 = d\<lparr>world := w, stdin := rest,
            trace := trace d @ [Prompted p, Invoked (resume_command v) r]\<rparr>"
        have t2: "trace d2 = trace d @ [Prompted p, Invoked (resume_command v) r]"
          by (simp add: d2_def)
        show ?thesis
        proof (cases r)
          case (Inl e)
          have "sql_loop U agent_invoke (Suc fuel) res d = (Raised e, d2)"
            using Some i rq Inr vr rw Inl by (simp add: Let_def p_def d2_def)
          then have "trace (snd (sql_loop U agent_invoke (Suc fuel) res d))
              = trace d @ [Prompted p, Invoked (resume_command v) (Inl e)]"
            using t2 Inl by (simp del: sql_loop.simps)
          moreover have "interrupt_key res \<noteq> None" using Some by simp
          ultimately show ?thesis using err[OF v] by blast
        next
          case r: (Inr res')
          have "sql_loop U agent_invoke (Suc fuel) res d = sql_loop U agent_invoke fuel res' d2"
            using Some i rq Inr vr rw r by (simp add: Let_def p_def d2_def)
          moreover have "trace d2 = trace d @ [Prompted p, Invoked (resume_command v) (Inr res')]"
            using t2 r by simp
          moreover have "interrupt_key res \<noteq> None" using Some by simp
          ultimately show ?thesis using cont[OF v] by blast
        qed
      qed
    qed
  qed
qed





lemma email_loop_quiet:
  assumes "list_ex completing (trace d) \<longrightarrow> interrupt_key res = None"
    and "quiet_after_completion (trace d)"
  shows "quiet_after_completion (trace (snd (email_loop U agent_invoke fuel res d)))"
  using assms
proof (induction fuel arbitrary: res d)
  case 0
  then show ?case by simp
next
  case (Suc fuel)
  show ?case
  proof (cases rule: email_loop_Suc_cases[of U agent_invoke fuel res d])
    case stop
    then show ?thesis using Suc.prems by (simp del: email_loop.simps)
  next
    case (eof p)
    have nc: "\<forall>ev \<in> set (trace d). \<not> completing ev"
      using eof(1) Suc.prems(1) by (auto simp: list_ex_iff)
    show ?thesis using nc eof(2)
      by (simp add: quiet_after_completion_def list_all_iff del: email_loop.simps)
  next
    case (err p v e)
    have nc: "\<forall>ev \<in> set (trace d). \<not> completing ev"
      using err(2) Suc.prems(1) by (auto simp: list_ex_iff)
    show ?thesis using nc err(3)
      by (simp add: quiet_after_completion_def list_all_iff butlast_append
          del: email_loop.simps)
  next
    case (cont p v res' d2)
    have nc: "\<forall>ev \<in> set (trace d). \<not> completing ev"
      using cont(2) Suc.prems(1) by (auto simp: list_ex_iff)
    have a: "list_ex completing (trace d2) \<longrightarrow> interrupt_key res' = None"
      using cont(3) nc by (auto simp: list_ex_iff)
    have b: "quiet_after_completion (trace d2)"
      using cont(3) nc
      by (simp add: quiet_after_completion_def list_all_iff butlast_append)
    from Suc.IH[OF a b] show ?thesis by (simp add: cont(4) del: email_loop.simps)
  qed
qed

lemma email_main_quiet:
  assumes "list_all (\<lambda>ev. \<not> completing ev) (trace d)"
  shows "quiet_after_completion (trace (snd (email_main U agent_invoke fuel d)))"
proof -
  obtain r w where rw: "agent_invoke (Start email_prompt) (world d) = (r, w)"
    by (cases "agent_invoke (Start email_prompt) (world d)")
  define d1 where "d1 = d\<lparr>world := w, trace := trace d @ [Invoked (Start email_prompt) r]\<rparr>"
  have q: "quiet_after_completion (trace d1)"
    using assms by (simp add: d1_def quiet_after_completion_def)
  show ?thesis
  proof (cases r)
    case (Inl e)
    then show ?thesis using q rw by (simp add: email_main_def d1_def)
  next
    case (Inr res)
    have a: "list_ex completing (trace d1) \<longrightarrow> interrupt_key res = None"
      using assms Inr by (auto simp: d1_def list_ex_iff list_all_iff)
    from email_loop_quiet[OF a q, of U agent_invoke fuel] show ?thesis
      using rw Inr by (simp add: email_main_def d1_def)
  qed
qed


lemma sql_loop_quiet:
  assumes "list_ex completing (trace d) \<longrightarrow> interrupt_key res = None"
    and "quiet_after_completion (trace d)"
  shows "quiet_after_completion (trace (snd (sql_loop U agent_invoke fuel res d)))"
  using assms
proof (induction fuel arbitrary: res d)
  case 0
  then show ?case by simp
next
  case (Suc fuel)
  show ?case
  proof (cases rule: sql_loop_Suc_cases[of U agent_invoke fuel res d])
    case stop
    then show ?thesis using Suc.prems by (simp del: sql_loop.simps)
  next
    case (eof p)
    have nc: "\<forall>ev \<in> set (trace d). \<not> completing ev"
      using eof(1) Suc.prems(1) by (auto simp: list_ex_iff)
    show ?thesis using nc eof(2)
      by (simp add: quiet_after_completion_def list_all_iff del: sql_loop.simps)
  next
    case (err p v e)
    have nc: "\<forall>ev \<in> set (trace d). \<not> completing ev"
      using err(2) Suc.prems(1) by (auto simp: list_ex_iff)
    show ?thesis using nc err(3)
      by (simp add: quiet_after_completion_def list_all_iff butlast_append
          del: sql_loop.simps)
  next
    case (cont p v res' d2)
    have nc: "\<forall>ev \<in> set (trace d). \<not> completing ev"
      using cont(2) Suc.prems(1) by (auto simp: list_ex_iff)
    have a: "list_ex completing (trace d2) \<longrightarrow> interrupt_key res' = None"
      using cont(3) nc by (auto simp: list_ex_iff)
    have b: "quiet_after_completion (trace d2)"
      using cont(3) nc
      by (simp add: quiet_after_completion_def list_all_iff butlast_append)
    from Suc.IH[OF a b] show ?thesis by (simp add: cont(4) del: sql_loop.simps)
  qed
qed

lemma sql_main_quiet:
  assumes "list_all (\<lambda>ev. \<not> completing ev) (trace d)"
  shows "quiet_after_completion (trace (snd (sql_main U agent_invoke fuel d)))"
proof -
  obtain r w where rw: "agent_invoke (Start sql_prompt) (world d) = (r, w)"
    by (cases "agent_invoke (Start sql_prompt) (world d)")
  define d1 where "d1 = d\<lparr>world := w, trace := trace d @ [Invoked (Start sql_prompt) r]\<rparr>"
  have q: "quiet_after_completion (trace d1)"
    using assms by (simp add: d1_def quiet_after_completion_def)
  show ?thesis
  proof (cases r)
    case (Inl e)
    then show ?thesis using q rw by (simp add: sql_main_def d1_def)
  next
    case (Inr res)
    have a: "list_ex completing (trace d1) \<longrightarrow> interrupt_key res = None"
      using assms Inr by (auto simp: d1_def list_ex_iff list_all_iff)
    from sql_loop_quiet[OF a q, of U agent_invoke fuel] show ?thesis
      using rw Inr by (simp add: sql_main_def d1_def)
  qed
qed







section \<open>Properties of the engine of the specification\<close>


lemma resume_not_suspended:
  "store eng tid = Some rs \<Longrightarrow> status rs \<noteq> Suspended \<Longrightarrow>
   resume plan registry fuel tid decisions eng = (Some (Inl NotSuspendedError), eng)"
  by (simp add: resume_def)

lemma invoke_and_append_Inr:
  "invoke_and_append registry rq s = Inr s' \<Longrightarrow>
   snd s' = snd s @ [rq] \<and> (\<exists>m. fst s' = fst s @ [m]) \<and> (\<exists>t. lookup registry (tool_name rq) = Inr t)"
  by (auto simp: invoke_and_append_def Let_def split: sum.splits)

lemma invoke_and_append_Inl:
  "invoke_and_append registry rq s = Inl (e, s') \<Longrightarrow> s' = s \<and> e = UnknownToolError"
  by (auto simp: invoke_and_append_def Let_def lookup_def split: sum.splits option.splits)

lemma execute_all_invocations:
  "execute_all registry rqs s = Inr s' \<or> execute_all registry rqs s = Inl (e, s') \<Longrightarrow>
   \<exists>new more. snd s' = snd s @ new \<and> set new \<subseteq> set rqs \<and> fst s' = fst s @ more"
proof (induction rqs arbitrary: s)
  case Nil
  then show ?case by auto
next
  case (Cons rq rqs)
  show ?case
  proof (cases "invoke_and_append registry rq s")
    case (Inl es)
    then show ?thesis using Cons.prems invoke_and_append_Inl[of registry rq s "fst es" "snd es"]
      by auto
  next
    case (Inr s1)
    from invoke_and_append_Inr[OF Inr] obtain m where
      s1: "snd s1 = snd s @ [rq]" "fst s1 = fst s @ [m]" by blast
    have "execute_all registry rqs s1 = Inr s' \<or> execute_all registry rqs s1 = Inl (e, s')"
      using Cons.prems Inr by simp
    from Cons.IH[OF this] obtain new more where
      "snd s' = snd s1 @ new" "set new \<subseteq> set rqs" "fst s' = fst s1 @ more" by blast
    then have "snd s' = snd s @ (rq # new)" "set (rq # new) \<subseteq> set (rq # rqs)"
      "fst s' = fst s @ (m # more)"
      using s1 by auto
    then show ?thesis by blast
  qed
qed

lemma partition_calls_ungated:
  "partition_calls registry rqs = Inr (gs, us) \<Longrightarrow>
   (\<forall>rq \<in> set us. requires_approval registry (tool_name rq) = Inr False) \<and>
   (\<forall>rq \<in> set gs. requires_approval registry (tool_name rq) = Inr True)"
proof (induction rqs arbitrary: gs us)
  case Nil
  then show ?case by simp
next
  case (Cons rq rqs)
  then show ?case
    by (auto split: sum.splits prod.splits if_splits)
qed

lemma drive_invocations:
  "drive plan registry fuel rs ivs = (x, ivs') \<Longrightarrow>
   \<exists>new. ivs' = ivs @ new \<and>
     (\<forall>rq \<in> set new. requires_approval registry (tool_name rq) = Inr False)"
proof (induction fuel arbitrary: rs ivs)
  case 0
  then show ?case by simp
next
  case (Suc fuel)
  define response where "response = plan (message_log rs) (catalog registry)"
  define log1 where "log1 = message_log rs @
       [\<lparr>role = Planner, content_text = response_content response,
         tool_calls = response_tool_calls response, tool_call_id = None\<rparr>]"
  show ?case
  proof (cases "response_tool_calls response = []")
    case True
    then show ?thesis using Suc.prems by (simp add: Let_def response_def)
  next
    case False
    show ?thesis
    proof (cases "partition_calls registry (response_tool_calls response)")
      case (Inl e)
      then show ?thesis using Suc.prems False by (simp add: Let_def response_def)
    next
      case (Inr gu)
      obtain gs us where gu: "gu = (gs, us)" by (cases gu)
      have ung: "\<forall>rq \<in> set us. requires_approval registry (tool_name rq) = Inr False"
        using partition_calls_ungated Inr gu by blast
      show ?thesis
      proof (cases "execute_all registry us (log1, ivs)")
        case (Inl es)
        obtain e s where es: "es = (e, s)" by (cases es)
        from execute_all_invocations[of registry us "(log1, ivs)" s e] Inl es
        obtain new where "snd s = ivs @ new" "set new \<subseteq> set us" by auto
        moreover have "ivs' = snd s"
          using Suc.prems False Inr gu Inl es by (simp add: Let_def response_def log1_def)
        ultimately show ?thesis using ung by blast
      next
        case r: (Inr s2)
        obtain log2 ivs2 where s2: "s2 = (log2, ivs2)" by (cases s2)
        from execute_all_invocations[of registry us "(log1, ivs)" s2] r
        obtain new where new: "ivs2 = ivs @ new" "set new \<subseteq> set us" using s2 by auto
        show ?thesis
        proof (cases "gs \<noteq> []")
          case True
          then have "ivs' = ivs2"
            using Suc.prems False Inr gu r s2 by (simp add: Let_def response_def log1_def)
          then show ?thesis using new ung by blast
        next
          case g: False
          then have "drive plan registry fuel (rs\<lparr>message_log := log2\<rparr>) ivs2 = (x, ivs')"
            using Suc.prems False Inr gu r s2 by (simp add: Let_def response_def log1_def)
          from Suc.IH[OF this] obtain new2 where
            "ivs' = ivs2 @ new2"
            "\<forall>rq \<in> set new2. requires_approval registry (tool_name rq) = Inr False" by blast
          then have "ivs' = ivs @ (new @ new2)"
            "\<forall>rq \<in> set (new @ new2). requires_approval registry (tool_name rq) = Inr False"
            using new ung by auto
          then show ?thesis by blast
        qed
      qed
    qed
  qed
qed

lemma drive_state:
  "drive plan registry fuel rs ivs = (Some (Inr (out, rs')), ivs') \<Longrightarrow>
   thread_id rs' = thread_id rs \<and> (\<exists>more. message_log rs' = message_log rs @ more) \<and>
   (case out of CompletedRun t \<Rightarrow> status rs' = Completed
    | SuspendedRun gs \<Rightarrow> status rs' = Suspended \<and> pending_requests rs' = gs \<and> gs \<noteq> [] \<and>
        (\<forall>rq \<in> set gs. requires_approval registry (tool_name rq) = Inr True))"
proof (induction fuel arbitrary: rs ivs)
  case 0
  then show ?case by simp
next
  case (Suc fuel)
  define response where "response = plan (message_log rs) (catalog registry)"
  define log1 where "log1 = message_log rs @
       [\<lparr>role = Planner, content_text = response_content response,
         tool_calls = response_tool_calls response, tool_call_id = None\<rparr>]"
  show ?case
  proof (cases "response_tool_calls response = []")
    case True
    then show ?thesis using Suc.prems by (auto simp: Let_def response_def)
  next
    case False
    show ?thesis
    proof (cases "partition_calls registry (response_tool_calls response)")
      case (Inl e)
      then show ?thesis using Suc.prems False by (simp add: Let_def response_def)
    next
      case (Inr gu)
      obtain gs us where gu: "gu = (gs, us)" by (cases gu)
      show ?thesis
      proof (cases "execute_all registry us (log1, ivs)")
        case (Inl es)
        obtain e s where es: "es = (e, s)" by (cases es)
        show ?thesis
          using Suc.prems False Inr gu Inl es by (simp add: Let_def response_def log1_def)
      next
        case r: (Inr s2)
        obtain log2 ivs2 where s2: "s2 = (log2, ivs2)" by (cases s2)
        from execute_all_invocations[of registry us "(log1, ivs)" s2] r
        obtain more where more: "log2 = log1 @ more" using s2 by auto
        show ?thesis
        proof (cases "gs \<noteq> []")
          case True
          have "\<forall>rq \<in> set gs. requires_approval registry (tool_name rq) = Inr True"
            using partition_calls_ungated Inr gu by blast
          with True show ?thesis
            using Suc.prems False Inr gu r s2 more
            by (auto simp: Let_def response_def log1_def)
        next
          case g: False
          then have "drive plan registry fuel (rs\<lparr>message_log := log2\<rparr>) ivs2
              = (Some (Inr (out, rs')), ivs')"
            using Suc.prems False Inr gu r s2 by (simp add: Let_def response_def log1_def)
          from Suc.IH[OF this] show ?thesis using more by (auto simp: log1_def)
        qed
      qed
    qed
  qed
qed

lemma apply_decisions_invocations:
  "apply_decisions registry decisions pending s = Inr s' \<or>
   apply_decisions registry decisions pending s = Inl (e, s') \<Longrightarrow>
   \<exists>new more. snd s' = snd s @ new \<and> fst s' = fst s @ more \<and>
     (\<forall>rq \<in> set new. rq \<in> set pending \<and> verdict_for decisions (req_id rq) = Some Approve)"
proof (induction pending arbitrary: s)
  case Nil
  then show ?case by auto
next
  case (Cons rq rqs)
  show ?case
  proof (cases "verdict_for decisions (req_id rq)")
    case None
    then show ?thesis using Cons.prems by auto
  next
    case (Some v)
    show ?thesis
    proof (cases v)
      case Approve
      show ?thesis
      proof (cases "invoke_and_append registry rq s")
        case (Inl es)
        then show ?thesis
          using Cons.prems Some Approve invoke_and_append_Inl[of registry rq s "fst es" "snd es"]
          by auto
      next
        case (Inr s1)
        from invoke_and_append_Inr[OF Inr] obtain m where
          s1: "snd s1 = snd s @ [rq]" "fst s1 = fst s @ [m]" by blast
        have "apply_decisions registry decisions rqs s1 = Inr s' \<or>
              apply_decisions registry decisions rqs s1 = Inl (e, s')"
          using Cons.prems Some Approve Inr by simp
        from Cons.IH[OF this] obtain new more where n:
          "snd s' = snd s1 @ new" "fst s' = fst s1 @ more"
          "\<forall>r \<in> set new. r \<in> set rqs \<and> verdict_for decisions (req_id r) = Some Approve"
          by blast
        have "snd s' = snd s @ (rq # new)" "fst s' = fst s @ (m # more)"
          "\<forall>r \<in> set (rq # new). r \<in> set (rq # rqs) \<and> verdict_for decisions (req_id r) = Some Approve"
          using n s1 Some Approve by auto
        then show ?thesis by blast
      qed
    next
      case Reject
      define s1 where "s1 = (fst s @ [tool_result (req_id rq) rejected_payload], snd s)"
      have "apply_decisions registry decisions rqs s1 = Inr s' \<or>
            apply_decisions registry decisions rqs s1 = Inl (e, s')"
        using Cons.prems Some Reject by (simp add: s1_def)
      from Cons.IH[OF this] obtain new more where n:
        "snd s' = snd s1 @ new" "fst s' = fst s1 @ more"
        "\<forall>r \<in> set new. r \<in> set rqs \<and> verdict_for decisions (req_id r) = Some Approve"
        by blast
      have "snd s' = snd s @ new"
        "fst s' = fst s @ (tool_result (req_id rq) rejected_payload # more)"
        "\<forall>r \<in> set new. r \<in> set (rq # rqs) \<and> verdict_for decisions (req_id r) = Some Approve"
        using n by (auto simp: s1_def)
      then show ?thesis by blast
    qed
  qed
qed

lemma apply_decisions_marker:
  "apply_decisions registry decisions pending s = Inr s' \<Longrightarrow>
   \<exists>more. fst s' = fst s @ more \<and> length more = length pending \<and>
     (\<forall>i < length pending.
        role (more ! i) = Tool \<and> tool_call_id (more ! i) = Some (req_id (pending ! i)) \<and>
        (verdict_for decisions (req_id (pending ! i)) = Some Reject \<longrightarrow>
           more ! i = tool_result (req_id (pending ! i)) rejected_payload))"
proof (induction pending arbitrary: s)
  case Nil
  then show ?case by simp
next
  case (Cons rq rqs)
  have step: "\<exists>m s1. apply_decisions registry decisions rqs s1 = Inr s' \<and> fst s1 = fst s @ [m] \<and>
      role m = Tool \<and> tool_call_id m = Some (req_id rq) \<and>
      (verdict_for decisions (req_id rq) = Some Reject \<longrightarrow> m = tool_result (req_id rq) rejected_payload)"
  proof (cases "verdict_for decisions (req_id rq)")
    case None
    then show ?thesis using Cons.prems by simp
  next
    case (Some v)
    show ?thesis
    proof (cases v)
      case Approve
      then show ?thesis using Cons.prems Some
        by (auto simp: invoke_and_append_def Let_def tool_result_def split: sum.splits)
    next
      case Reject
      then show ?thesis using Cons.prems Some by (auto simp: tool_result_def)
    qed
  qed
  then obtain m s1 where s1: "apply_decisions registry decisions rqs s1 = Inr s'"
    "fst s1 = fst s @ [m]" "role m = Tool" "tool_call_id m = Some (req_id rq)"
    "verdict_for decisions (req_id rq) = Some Reject \<longrightarrow> m = tool_result (req_id rq) rejected_payload"
    by blast
  from Cons.IH[OF s1(1)] obtain more where more:
    "fst s' = fst s1 @ more" "length more = length rqs"
    "\<forall>i < length rqs.
        role (more ! i) = Tool \<and> tool_call_id (more ! i) = Some (req_id (rqs ! i)) \<and>
        (verdict_for decisions (req_id (rqs ! i)) = Some Reject \<longrightarrow>
           more ! i = tool_result (req_id (rqs ! i)) rejected_payload)"
    by blast
  have a: "fst s' = fst s @ (m # more)" using more(1) s1(2) by simp
  have b: "length (m # more) = length (rq # rqs)" using more(2) by simp
  have c: "\<forall>i < length (rq # rqs).
        role ((m # more) ! i) = Tool \<and> tool_call_id ((m # more) ! i) = Some (req_id ((rq # rqs) ! i)) \<and>
        (verdict_for decisions (req_id ((rq # rqs) ! i)) = Some Reject \<longrightarrow>
           (m # more) ! i = tool_result (req_id ((rq # rqs) ! i)) rejected_payload)"
  proof (intro allI impI)
    fix i assume "i < length (rq # rqs)"
    then show "role ((m # more) ! i) = Tool \<and> tool_call_id ((m # more) ! i) = Some (req_id ((rq # rqs) ! i)) \<and>
        (verdict_for decisions (req_id ((rq # rqs) ! i)) = Some Reject \<longrightarrow>
           (m # more) ! i = tool_result (req_id ((rq # rqs) ! i)) rejected_payload)"
      using s1(3,4,5) more(3) by (cases i) auto
  qed
  from a b c show ?case by blast
qed

lemma apply_decisions_all_reject:
  "\<forall>rq \<in> set pending. verdict_for decisions (req_id rq) = Some Reject \<Longrightarrow>
   apply_decisions registry decisions pending s =
     Inr (fst s @ map (\<lambda>rq. tool_result (req_id rq) rejected_payload) pending, snd s)"
  by (induction pending arbitrary: s) simp_all

lemma apply_decisions_error:
  "apply_decisions registry decisions pending s = Inl (e, s') \<Longrightarrow>
   \<exists>rq \<in> set pending. verdict_for decisions (req_id rq) \<noteq> Some Reject"
  using apply_decisions_all_reject[of pending decisions registry s] by auto

lemma run_drive_result:
  assumes "run_drive plan registry fuel rs eng = (out, eng')"
  shows "(\<exists>new. invocations eng' = invocations eng @ new \<and>
            (\<forall>rq \<in> set new. requires_approval registry (tool_name rq) = Inr False)) \<and>
         (\<forall>outcome. out = Some (Inr outcome) \<longrightarrow>
            (\<exists>rs' more. store eng' (thread_id rs) = Some rs' \<and> thread_id rs' = thread_id rs \<and>
               message_log rs' = message_log rs @ more \<and>
               (case outcome of CompletedRun t \<Rightarrow> status rs' = Completed
                | SuspendedRun gs \<Rightarrow> status rs' = Suspended \<and> pending_requests rs' = gs \<and> gs \<noteq> [] \<and>
                    (\<forall>rq \<in> set gs. requires_approval registry (tool_name rq) = Inr True))))"
proof -
  obtain x ivs' where xi: "drive plan registry fuel rs (invocations eng) = (x, ivs')"
    by (cases "drive plan registry fuel rs (invocations eng)")
  from drive_invocations[OF xi]
  obtain new where new: "ivs' = invocations eng @ new"
    "\<forall>rq \<in> set new. requires_approval registry (tool_name rq) = Inr False" by auto
  show ?thesis
  proof (cases x)
    case None
    then show ?thesis using assms xi new by (auto simp: run_drive_def)
  next
    case (Some y)
    show ?thesis
    proof (cases y)
      case (Inl e)
      then show ?thesis using assms xi Some new by (auto simp: run_drive_def)
    next
      case (Inr ors)
      obtain outcome rs' where ors: "ors = (outcome, rs')" by (cases ors)
      from drive_state[of plan registry fuel rs "invocations eng" outcome rs' ivs'] xi Some Inr ors
      have st: "thread_id rs' = thread_id rs" "\<exists>more. message_log rs' = message_log rs @ more"
        "case outcome of CompletedRun t \<Rightarrow> status rs' = Completed
          | SuspendedRun gs \<Rightarrow> status rs' = Suspended \<and> pending_requests rs' = gs \<and> gs \<noteq> [] \<and>
              (\<forall>rq \<in> set gs. requires_approval registry (tool_name rq) = Inr True)"
        by auto
      have e: "out = Some (Inr outcome)"
        "eng' = \<lparr>store = (store eng)(thread_id rs' \<mapsto> rs'), invocations = ivs'\<rparr>"
        using assms xi Some Inr ors by (auto simp: run_drive_def)
      show ?thesis using e st new by auto
    qed
  qed
qed

lemma start_completed:
  assumes "start plan registry fuel tid user_text eng = (Some (Inr (CompletedRun t)), eng')"
  shows "\<exists>rs'. store eng' tid = Some rs' \<and> status rs' = Completed"
proof (cases "store eng tid")
  case None
  then have "run_drive plan registry fuel
            \<lparr>thread_id = tid,
             message_log = [\<lparr>role = User, content_text = user_text, tool_calls = [],
                              tool_call_id = None\<rparr>],
             status = Running, pending_requests = []\<rparr> eng = (Some (Inr (CompletedRun t)), eng')"
    using assms by (simp add: start_def)
  from run_drive_result[OF this] show ?thesis by auto
next
  case (Some rs)
  then show ?thesis using assms by (simp add: start_def)
qed

lemma resume_completed:
  assumes "resume plan registry fuel tid decisions eng = (Some (Inr (CompletedRun t)), eng')"
    and "store eng tid = Some rs" and "thread_id rs = tid"
  shows "\<exists>rs'. store eng' tid = Some rs' \<and> status rs' = Completed"
proof -
  have s: "status rs = Suspended"
    "set (map request_id decisions) = set (map req_id (pending_requests rs))"
    using assms by (auto simp: resume_def split: if_splits)
  show ?thesis
  proof (cases "apply_decisions registry decisions (pending_requests rs)
                    (message_log rs, invocations eng)")
    case (Inl es)
    then show ?thesis using assms s by (auto simp: resume_def split: prod.splits)
  next
    case (Inr li)
    obtain log ivs where li: "li = (log, ivs)" by (cases li)
    have "run_drive plan registry fuel
            (rs\<lparr>message_log := log, status := Running, pending_requests := []\<rparr>)
            (eng\<lparr>invocations := ivs\<rparr>) = (Some (Inr (CompletedRun t)), eng')"
      using assms s Inr li by (simp add: resume_def)
    from run_drive_result[OF this] show ?thesis using assms(3) by auto
  qed
qed

lemma start_suspended_gated:
  assumes "start plan registry fuel tid user_text eng = (Some (Inr (SuspendedRun gs)), eng')"
  shows "\<exists>rs'. store eng' tid = Some rs' \<and> status rs' = Suspended \<and>
           pending_requests rs' = gs \<and>
           (\<forall>rq \<in> set gs. requires_approval registry (tool_name rq) = Inr True)"
proof (cases "store eng tid")
  case None
  then have "run_drive plan registry fuel
            \<lparr>thread_id = tid,
             message_log = [\<lparr>role = User, content_text = user_text, tool_calls = [],
                              tool_call_id = None\<rparr>],
             status = Running, pending_requests = []\<rparr> eng = (Some (Inr (SuspendedRun gs)), eng')"
    using assms by (simp add: start_def)
  from run_drive_result[OF this] show ?thesis by auto
next
  case (Some rs)
  then show ?thesis using assms by (simp add: start_def)
qed

lemma resume_rejected:
  assumes st: "store eng tid = Some rs" "status rs = Suspended"
      "set (map request_id decisions) = set (map req_id (pending_requests rs))"
    and rq: "rq \<in> set (pending_requests rs)" "verdict_for decisions (req_id rq) = Some Reject"
      "requires_approval registry (tool_name rq) = Inr True"
    and res: "resume plan registry fuel tid decisions eng = (out, eng')"
  shows "(\<exists>new. invocations eng' = invocations eng @ new \<and> rq \<notin> set new) \<and>
         (\<forall>outcome. out = Some (Inr outcome) \<longrightarrow>
            (\<exists>rs'. store eng' (thread_id rs) = Some rs' \<and>
               tool_result (req_id rq) rejected_payload \<in> set (message_log rs')))"
proof (cases "apply_decisions registry decisions (pending_requests rs)
                    (message_log rs, invocations eng)")
  case (Inl es)
  obtain e s where es: "es = (e, s)" by (cases es)
  from apply_decisions_invocations[of registry decisions "pending_requests rs"
      "(message_log rs, invocations eng)" s e] Inl es
  obtain new where new: "snd s = invocations eng @ new"
    "\<forall>r \<in> set new. verdict_for decisions (req_id r) = Some Approve" by auto
  have "out = Some (Inl e)" "eng' = eng\<lparr>invocations := snd s\<rparr>"
    using res st Inl es by (auto simp: resume_def)
  moreover have "rq \<notin> set new" using new(2) rq(2) by auto
  ultimately show ?thesis using new(1) by auto
next
  case (Inr li)
  obtain log ivs where li: "li = (log, ivs)" by (cases li)
  from apply_decisions_invocations[of registry decisions "pending_requests rs"
      "(message_log rs, invocations eng)" li] Inr li
  obtain new where new: "ivs = invocations eng @ new"
    "\<forall>r \<in> set new. verdict_for decisions (req_id r) = Some Approve" by auto
  obtain i where i: "i < length (pending_requests rs)" "pending_requests rs ! i = rq"
    using rq(1) by (auto simp: in_set_conv_nth)
  from apply_decisions_marker[OF Inr] obtain more where more:
    "log = message_log rs @ more" "length more = length (pending_requests rs)"
    "more ! i = tool_result (req_id rq) rejected_payload"
    using li i rq(2) by auto
  have mem: "tool_result (req_id rq) rejected_payload \<in> set log"
    using more i by (auto simp: in_set_conv_nth)
  have rd: "run_drive plan registry fuel
            (rs\<lparr>message_log := log, status := Running, pending_requests := []\<rparr>)
            (eng\<lparr>invocations := ivs\<rparr>) = (out, eng')"
    using res st Inr li by (simp add: resume_def)
  note r = run_drive_result[OF rd]
  from r obtain new2 where new2:
    "invocations eng' = ivs @ new2"
    "\<forall>r \<in> set new2. requires_approval registry (tool_name r) = Inr False"
    by auto
  from r have logs: "\<forall>outcome. out = Some (Inr outcome) \<longrightarrow>
            (\<exists>rs' more. store eng' (thread_id rs) = Some rs' \<and> message_log rs' = log @ more)"
    by simp blast
  have "invocations eng' = invocations eng @ (new @ new2)" using new(1) new2(1) by simp
  moreover have "rq \<notin> set (new @ new2)" using new(2) new2(2) rq(2,3) by auto
  ultimately have a: "\<exists>new. invocations eng' = invocations eng @ new \<and> rq \<notin> set new" by blast
  have b: "\<forall>outcome. out = Some (Inr outcome) \<longrightarrow>
            (\<exists>rs'. store eng' (thread_id rs) = Some rs' \<and>
               tool_result (req_id rq) rejected_payload \<in> set (message_log rs'))"
    using logs mem by fastforce
  from a b show ?thesis by blast
qed

section \<open>The claims on drivers and engine\<close>



lemma example_suspended_state:
  "store example_suspended ''t1'' = Some example_run_state \<and>
   status example_run_state = Suspended \<and>
   pending_requests example_run_state = [send_request] \<and>
   thread_id example_run_state = ''t1''"
proof -
  have "store example_suspended ''t1'' \<noteq> None" by code_simp
  then have a: "store example_suspended ''t1'' = Some example_run_state"
    by (auto simp: example_run_state_def)
  have b: "status example_run_state = Suspended" by code_simp
  have c: "pending_requests example_run_state = [send_request]" by code_simp
  have d: "thread_id example_run_state = ''t1''" by code_simp
  from a b c d show ?thesis by blast
qed



text \<open>
  Claim C2. The claim fails for the email and the SQL driver: they read
  \<open>action_requests[-1]\<close>. In the example runs the interrupt carries two pending requests;
  the email driver and the SQL driver each prompt once, for the last request, and the run
  finishes without the first request ever being shown. The Obsidian driver, on an
  interrupt with two requests, prompts for both.
\<close>

theorem email_and_sql_prompt_last_request_only:
  "fst (email_main example_unicode (example_agent two_emails) 5 (terminal [''y''])) =
     Finished \<lparr>interrupt_key = None, messages = [OtherMessage ''done'']\<rparr> \<and>
   length two_emails = 2 \<and>
   prompts (trace (snd (email_main example_unicode (example_agent two_emails) 5 (terminal [''y''])))) =
     [[''From Mark'', ''To: bob\<newline>Subject: re\<newline>\<newline>two'']] \<and>
   length two_queries = 2 \<and>
   prompts (trace (snd (sql_main example_unicode (example_agent two_queries) 5 (terminal [''y''])))) =
     [[''INSERT INTO Artist (Name) VALUES (1)'']] \<and>
   prompts (trace (snd (obsidian_main example_unicode (example_agent two_notes) (\<lambda>w. example_vault) 5
       (terminal [''y'', ''n''])))) =
     [[''a'', ''old'', ''a'', ''x''], [''b'', ''other'', ''b'', ''y'']]"
proof -
  have a: "fst (email_main example_unicode (example_agent two_emails) 5 (terminal [''y''])) =
     Finished \<lparr>interrupt_key = None, messages = [OtherMessage ''done'']\<rparr>" by code_simp
  have b: "length two_emails = 2" by code_simp
  have c: "prompts (trace (snd (email_main example_unicode (example_agent two_emails) 5 (terminal [''y''])))) =
     [[''From Mark'', ''To: bob\<newline>Subject: re\<newline>\<newline>two'']]" by code_simp
  have d: "length two_queries = 2" by code_simp
  have e: "prompts (trace (snd (sql_main example_unicode (example_agent two_queries) 5 (terminal [''y''])))) =
     [[''INSERT INTO Artist (Name) VALUES (1)'']]" by code_simp
  have f: "prompts (trace (snd (obsidian_main example_unicode (example_agent two_notes) (\<lambda>w. example_vault) 5
       (terminal [''y'', ''n''])))) =
     [[''a'', ''old'', ''a'', ''x''], [''b'', ''other'', ''b'', ''y'']]" by code_simp
  from a b c d e f show ?thesis by blast
qed

lemma email_loop_no_interrupt:
  "interrupt_key res = None \<Longrightarrow> email_loop U agent_invoke (Suc fuel) res d = (Finished res, d)"
  by simp

lemma sql_loop_no_interrupt:
  "interrupt_key res = None \<Longrightarrow> sql_loop U agent_invoke (Suc fuel) res d = (Finished res, d)"
  by simp

text \<open>
  Claim C6. Completed is terminal. In the drivers of the email and the SQL agent, a result
  without \<open>"__interrupt__"\<close> ends the loop at once, with no prompt and no resume, and in
  every run (whatever the agent answers, however long the run) an invocation that gave
  such a result is the last event: nothing is resumed after it. In the engine of the
  specification, a resume on a thread whose status is completed fails with
  \<open>NotSuspendedError\<close> and changes nothing, and a thread is in that status after every
  \<open>start\<close> or \<open>resume\<close> that returned a completed outcome.
\<close>

theorem completed_is_terminal:
  fixes agent_invoke :: "command \<Rightarrow> 'w \<Rightarrow> (py_error + result) \<times> 'w"
  shows
  "(interrupt_key res = None \<longrightarrow>
      email_loop U agent_invoke (Suc fuel) res d = (Finished res, d) \<and>
      sql_loop U agent_invoke (Suc fuel) res d = (Finished res, d)) \<and>
   (list_all (\<lambda>ev. \<not> completing ev) (trace d) \<longrightarrow>
      quiet_after_completion (trace (snd (email_main U agent_invoke fuel d))) \<and>
      quiet_after_completion (trace (snd (sql_main U agent_invoke fuel d)))) \<and>
   (store eng tid = Some rs \<and> status rs = Completed \<longrightarrow>
      resume plan registry n tid decisions eng = (Some (Inl NotSuspendedError), eng)) \<and>
   (\<forall>t eng'. start plan registry m tid user_text eng = (Some (Inr (CompletedRun t)), eng') \<longrightarrow>
      resume plan registry n tid decisions eng' = (Some (Inl NotSuspendedError), eng')) \<and>
   (\<forall>t eng'. store eng tid = Some rs \<and> thread_id rs = tid \<and>
      resume plan registry m tid earlier eng = (Some (Inr (CompletedRun t)), eng') \<longrightarrow>
      resume plan registry n tid decisions eng' = (Some (Inl NotSuspendedError), eng'))"
proof -
  have a: "interrupt_key res = None \<longrightarrow>
      email_loop U agent_invoke (Suc fuel) res d = (Finished res, d) \<and>
      sql_loop U agent_invoke (Suc fuel) res d = (Finished res, d)"
    by simp
  have b: "list_all (\<lambda>ev. \<not> completing ev) (trace d) \<longrightarrow>
      quiet_after_completion (trace (snd (email_main U agent_invoke fuel d))) \<and>
      quiet_after_completion (trace (snd (sql_main U agent_invoke fuel d)))"
    using email_main_quiet sql_main_quiet by blast
  have c: "store eng tid = Some rs \<and> status rs = Completed \<longrightarrow>
      resume plan registry n tid decisions eng = (Some (Inl NotSuspendedError), eng)"
    using resume_not_suspended[of eng tid rs plan registry n decisions] by simp
  have d: "\<forall>t eng'. start plan registry m tid user_text eng = (Some (Inr (CompletedRun t)), eng') \<longrightarrow>
      resume plan registry n tid decisions eng' = (Some (Inl NotSuspendedError), eng')"
  proof (intro allI impI)
    fix t eng'
    assume "start plan registry m tid user_text eng = (Some (Inr (CompletedRun t)), eng')"
    from start_completed[OF this] obtain rs' where
      "store eng' tid = Some rs'" "status rs' = Completed" by blast
    then show "resume plan registry n tid decisions eng' = (Some (Inl NotSuspendedError), eng')"
      using resume_not_suspended[of eng' tid rs' plan registry n decisions] by simp
  qed
  have e: "\<forall>t eng'. store eng tid = Some rs \<and> thread_id rs = tid \<and>
      resume plan registry m tid earlier eng = (Some (Inr (CompletedRun t)), eng') \<longrightarrow>
      resume plan registry n tid decisions eng' = (Some (Inl NotSuspendedError), eng')"
  proof (intro allI impI)
    fix t eng'
    assume h: "store eng tid = Some rs \<and> thread_id rs = tid \<and>
      resume plan registry m tid earlier eng = (Some (Inr (CompletedRun t)), eng')"
    then have "\<exists>rs'. store eng' tid = Some rs' \<and> status rs' = Completed"
      using resume_completed[of plan registry m tid earlier eng t eng' rs] by blast
    then obtain rs' where "store eng' tid = Some rs'" "status rs' = Completed" by blast
    then show "resume plan registry n tid decisions eng' = (Some (Inl NotSuspendedError), eng')"
      using resume_not_suspended[of eng' tid rs' plan registry n decisions] by simp
  qed
  from a b c d e show ?thesis by blast
qed

lemma example_resume_completes:
  "resume example_plan example_registry 5 ''t1''
     [\<lparr>request_id = ''call_2'', verdict = Reject\<rparr>] example_suspended
   = (Some (Inr (CompletedRun ''done'')), example_completed)"
proof -
  have "fst (resume example_plan example_registry 5 ''t1''
     [\<lparr>request_id = ''call_2'', verdict = Reject\<rparr>] example_suspended)
     = Some (Inr (CompletedRun ''done''))" by code_simp
  then show ?thesis by (simp add: example_completed_def prod_eq_iff)
qed

theorem completed_is_terminal_witness:
  "interrupt_key \<lparr>interrupt_key = None, messages = []\<rparr> = None \<and>
   email_loop example_unicode (example_agent two_emails) (Suc 0) \<lparr>interrupt_key = None, messages = []\<rparr> (terminal [])
     = (Finished \<lparr>interrupt_key = None, messages = []\<rparr>, terminal []) \<and>
   list_all (\<lambda>ev. \<not> completing ev) (trace (terminal [''y''])) \<and>
   quiet_after_completion (trace (snd (email_main example_unicode (example_agent two_emails) 5 (terminal [''y''])))) \<and>
   start answer_plan example_registry 5 ''t2'' ''hi'' empty_engine
     = (Some (Inr (CompletedRun ''hello'')),
        snd (start answer_plan example_registry 5 ''t2'' ''hi'' empty_engine)) \<and>
   resume answer_plan example_registry 5 ''t2'' []
       (snd (start answer_plan example_registry 5 ''t2'' ''hi'' empty_engine))
     = (Some (Inl NotSuspendedError),
        snd (start answer_plan example_registry 5 ''t2'' ''hi'' empty_engine)) \<and>
   store example_suspended ''t1'' = Some example_run_state \<and>
   thread_id example_run_state = ''t1'' \<and>
   resume example_plan example_registry 5 ''t1''
       [\<lparr>request_id = ''call_2'', verdict = Reject\<rparr>] example_suspended
     = (Some (Inr (CompletedRun ''done'')), example_completed) \<and>
   resume example_plan example_registry 5 ''t1''
       [\<lparr>request_id = ''call_2'', verdict = Approve\<rparr>] example_completed
     = (Some (Inl NotSuspendedError), example_completed)"
proof -
  let ?res = "\<lparr>interrupt_key = None, messages = []\<rparr>"
  let ?e2 = "snd (start answer_plan example_registry 5 ''t2'' ''hi'' empty_engine)"
  note t1 = completed_is_terminal [of ?res example_unicode "example_agent two_emails" 0 "terminal []"
      example_suspended "''t1''" example_run_state example_plan example_registry 5
      "[\<lparr>request_id = ''call_2'', verdict = Approve\<rparr>]" 5 "''hi''"
      "[\<lparr>request_id = ''call_2'', verdict = Reject\<rparr>]"]
  note t2 = completed_is_terminal [of ?res example_unicode "example_agent two_emails" 5 "terminal [''y'']"
      empty_engine "''t2''" example_run_state example_plan example_registry 5
      "[]" 5 "''hi''" "[]"]
  have h1: "interrupt_key ?res = None" by simp
  from t1 h1 have c1: "email_loop example_unicode (example_agent two_emails) (Suc 0) ?res (terminal [])
     = (Finished ?res, terminal [])" by blast
  have h2: "list_all (\<lambda>ev. \<not> completing ev) (trace (terminal [''y'']))"
    by (simp add: terminal_def)
  from t2 h2 have c2:
    "quiet_after_completion (trace (snd (email_main example_unicode (example_agent two_emails) 5 (terminal [''y'']))))"
    by blast
  note s = example_suspended_state
  note h3 = example_resume_completes
  from t1 s h3 have c3: "resume example_plan example_registry 5 ''t1''
       [\<lparr>request_id = ''call_2'', verdict = Approve\<rparr>] example_completed
     = (Some (Inl NotSuspendedError), example_completed)" by blast
  have "fst (start answer_plan example_registry 5 ''t2'' ''hi'' empty_engine)
      = Some (Inr (CompletedRun ''hello''))" by code_simp
  then have h4: "start answer_plan example_registry 5 ''t2'' ''hi'' empty_engine
     = (Some (Inr (CompletedRun ''hello'')), ?e2)" by (simp add: prod_eq_iff)
  note t3 = completed_is_terminal [of ?res example_unicode "example_agent two_emails" 5 "terminal [''y'']"
      empty_engine "''t2''" example_run_state answer_plan example_registry 5
      "[]" 5 "''hi''" "[]"]
  from t3 h4 have c4: "resume answer_plan example_registry 5 ''t2'' [] ?e2
     = (Some (Inl NotSuspendedError), ?e2)" by blast
  from h1 c1 h2 c2 h4 c4 s h3 c3 show ?thesis by blast
qed

lemma resume_all_reject_completes:
  assumes "store eng tid = Some rs" "status rs = Suspended"
    "set (map request_id decisions) = set (map req_id (pending_requests rs))"
    "\<forall>r \<in> set (pending_requests rs). verdict_for decisions (req_id r) = Some Reject"
    "response_tool_calls
       (plan (message_log rs @ map (\<lambda>r. tool_result (req_id r) rejected_payload) (pending_requests rs))
          (catalog registry)) = []"
  shows "fst (resume plan registry (Suc fuel) tid decisions eng) =
           Some (Inr (CompletedRun (response_content
             (plan (message_log rs @ map (\<lambda>r. tool_result (req_id r) rejected_payload)
                (pending_requests rs)) (catalog registry))))) \<and>
         invocations (snd (resume plan registry (Suc fuel) tid decisions eng)) = invocations eng"
  using assms(1,2,3,5)
  by (simp add: resume_def apply_decisions_all_reject[OF assms(4)] run_drive_def Let_def)

text \<open>
  Claim C7. In the engine of the specification, take the resume of a suspended run with
  decisions that match the pending batch. A pending request of a gated tool (the drive
  loop suspends on gated calls only) whose verdict is reject is not among the invocations
  the resume makes, neither in the handling of the decisions nor in the planner turns
  that follow, however long they run; when the resume
  returns an outcome, the saved message log holds the rejection-marker result for that
  request. Handling the decisions fails only on a request that is not rejected; when all
  are rejected it appends one marker per request, invokes nothing, and the resume
  completes as soon as the planner answers without tool calls.
\<close>

theorem rejected_request_not_invoked:
  assumes "store eng tid = Some rs" and "status rs = Suspended"
    and "set (map request_id decisions) = set (map req_id (pending_requests rs))"
  shows
  "(\<forall>rq \<in> set (pending_requests rs).
      verdict_for decisions (req_id rq) = Some Reject \<and>
      requires_approval registry (tool_name rq) = Inr True \<longrightarrow>
        (\<exists>new. invocations (snd (resume plan registry fuel tid decisions eng))
                  = invocations eng @ new \<and> rq \<notin> set new) \<and>
        (\<forall>outcome. fst (resume plan registry fuel tid decisions eng) = Some (Inr outcome) \<longrightarrow>
           (\<exists>rs'. store (snd (resume plan registry fuel tid decisions eng)) (thread_id rs) = Some rs' \<and>
              tool_result (req_id rq) rejected_payload \<in> set (message_log rs')))) \<and>
   (\<forall>e s'. apply_decisions registry decisions (pending_requests rs)
              (message_log rs, invocations eng) = Inl (e, s') \<longrightarrow>
      (\<exists>r \<in> set (pending_requests rs). verdict_for decisions (req_id r) \<noteq> Some Reject)) \<and>
   ((\<forall>r \<in> set (pending_requests rs). verdict_for decisions (req_id r) = Some Reject) \<longrightarrow>
      apply_decisions registry decisions (pending_requests rs) (message_log rs, invocations eng)
        = Inr (message_log rs @
                 map (\<lambda>r. tool_result (req_id r) rejected_payload) (pending_requests rs),
               invocations eng) \<and>
      (response_tool_calls
         (plan (message_log rs @ map (\<lambda>r. tool_result (req_id r) rejected_payload) (pending_requests rs))
            (catalog registry)) = [] \<longrightarrow>
       fst (resume plan registry (Suc fuel) tid decisions eng) =
           Some (Inr (CompletedRun (response_content
             (plan (message_log rs @ map (\<lambda>r. tool_result (req_id r) rejected_payload)
                (pending_requests rs)) (catalog registry))))) \<and>
       invocations (snd (resume plan registry (Suc fuel) tid decisions eng)) = invocations eng))"
proof -
  have a: "\<forall>rq \<in> set (pending_requests rs).
      verdict_for decisions (req_id rq) = Some Reject \<and>
      requires_approval registry (tool_name rq) = Inr True \<longrightarrow>
        (\<exists>new. invocations (snd (resume plan registry fuel tid decisions eng))
                  = invocations eng @ new \<and> rq \<notin> set new) \<and>
        (\<forall>outcome. fst (resume plan registry fuel tid decisions eng) = Some (Inr outcome) \<longrightarrow>
           (\<exists>rs'. store (snd (resume plan registry fuel tid decisions eng)) (thread_id rs) = Some rs' \<and>
              tool_result (req_id rq) rejected_payload \<in> set (message_log rs')))"
  proof (intro ballI impI)
    fix rq
    assume m: "rq \<in> set (pending_requests rs)"
      and v: "verdict_for decisions (req_id rq) = Some Reject \<and>
        requires_approval registry (tool_name rq) = Inr True"
    have r: "resume plan registry fuel tid decisions eng =
        (fst (resume plan registry fuel tid decisions eng),
         snd (resume plan registry fuel tid decisions eng))" by simp
    from resume_rejected[OF assms m conjunct1[OF v] conjunct2[OF v] r]
    show "(\<exists>new. invocations (snd (resume plan registry fuel tid decisions eng))
                  = invocations eng @ new \<and> rq \<notin> set new) \<and>
        (\<forall>outcome. fst (resume plan registry fuel tid decisions eng) = Some (Inr outcome) \<longrightarrow>
           (\<exists>rs'. store (snd (resume plan registry fuel tid decisions eng)) (thread_id rs) = Some rs' \<and>
              tool_result (req_id rq) rejected_payload \<in> set (message_log rs')))" .
  qed
  have b: "\<forall>e s'. apply_decisions registry decisions (pending_requests rs)
              (message_log rs, invocations eng) = Inl (e, s') \<longrightarrow>
      (\<exists>r \<in> set (pending_requests rs). verdict_for decisions (req_id r) \<noteq> Some Reject)"
    using apply_decisions_error by blast
  have c: "(\<forall>r \<in> set (pending_requests rs). verdict_for decisions (req_id r) = Some Reject) \<longrightarrow>
      apply_decisions registry decisions (pending_requests rs) (message_log rs, invocations eng)
        = Inr (message_log rs @
                 map (\<lambda>r. tool_result (req_id r) rejected_payload) (pending_requests rs),
               invocations eng) \<and>
      (response_tool_calls
         (plan (message_log rs @ map (\<lambda>r. tool_result (req_id r) rejected_payload) (pending_requests rs))
            (catalog registry)) = [] \<longrightarrow>
       fst (resume plan registry (Suc fuel) tid decisions eng) =
           Some (Inr (CompletedRun (response_content
             (plan (message_log rs @ map (\<lambda>r. tool_result (req_id r) rejected_payload)
                (pending_requests rs)) (catalog registry))))) \<and>
       invocations (snd (resume plan registry (Suc fuel) tid decisions eng)) = invocations eng)"
    using apply_decisions_all_reject[of "pending_requests rs" decisions registry
        "(message_log rs, invocations eng)"]
      resume_all_reject_completes[OF assms, where registry = registry and plan = plan and fuel = fuel]
    by simp
  from a b c show ?thesis by blast
qed

theorem rejected_request_not_invoked_witness:
  "store example_suspended ''t1'' = Some example_run_state \<and>
   status example_run_state = Suspended \<and>
   set (map request_id [\<lparr>request_id = ''call_2'', verdict = Reject\<rparr>])
     = set (map req_id (pending_requests example_run_state)) \<and>
   send_request \<in> set (pending_requests example_run_state) \<and>
   verdict_for [\<lparr>request_id = ''call_2'', verdict = Reject\<rparr>] (req_id send_request) = Some Reject \<and>
   requires_approval example_registry (tool_name send_request) = Inr True \<and>
   (\<exists>new. invocations (snd (resume example_plan example_registry 5 ''t1''
              [\<lparr>request_id = ''call_2'', verdict = Reject\<rparr>] example_suspended))
            = invocations example_suspended @ new \<and> send_request \<notin> set new) \<and>
   fst (resume example_plan example_registry 5 ''t1''
          [\<lparr>request_id = ''call_2'', verdict = Reject\<rparr>] example_suspended)
     = Some (Inr (CompletedRun ''done'')) \<and>
   (\<exists>rs'. store (snd (resume example_plan example_registry 5 ''t1''
              [\<lparr>request_id = ''call_2'', verdict = Reject\<rparr>] example_suspended))
             (thread_id example_run_state) = Some rs' \<and>
           tool_result (req_id send_request) rejected_payload \<in> set (message_log rs'))"
proof -
  let ?ds = "[\<lparr>request_id = ''call_2'', verdict = Reject\<rparr>]"
  note s = example_suspended_state
  have h3: "set (map request_id ?ds) = set (map req_id (pending_requests example_run_state))"
    using s by (simp add: send_request_def)
  have h4: "send_request \<in> set (pending_requests example_run_state)" using s by simp
  have h5: "verdict_for ?ds (req_id send_request) = Some Reject" by code_simp
  have h6: "requires_approval example_registry (tool_name send_request) = Inr True" by code_simp
  have h7: "fst (resume example_plan example_registry 5 ''t1'' ?ds example_suspended)
     = Some (Inr (CompletedRun ''done''))" by code_simp
  note t = rejected_request_not_invoked [where eng = example_suspended and tid = "''t1''"
      and rs = example_run_state and decisions = ?ds and registry = example_registry
      and plan = example_plan and fuel = 5, OF conjunct1[OF s] conjunct1[OF conjunct2[OF s]] h3]
  from t h4 h5 h6 have c1: "\<exists>new. invocations (snd (resume example_plan example_registry 5 ''t1''
              ?ds example_suspended))
            = invocations example_suspended @ new \<and> send_request \<notin> set new" by blast
  from t h4 h5 h6 h7 have c2: "\<exists>rs'. store (snd (resume example_plan example_registry 5 ''t1''
              ?ds example_suspended))
             (thread_id example_run_state) = Some rs' \<and>
           tool_result (req_id send_request) rejected_payload \<in> set (message_log rs')" by blast
  from s h3 h4 h5 h6 h7 c1 c2 show ?thesis by blast
qed

end
